theory Spec2Isabelle
  imports Complex_Main
begin

section \<open>Planar face discovery: data model\<close>

text \<open>
  The TypeScript sources work on JavaScript numbers. Coordinates and areas are modelled
  as exact reals (no rounding, no NaN, no infinities); vertex names and edge endpoints
  are integers, because the validator compares them with \<open>0\<close> and with the largest
  index. A vertex record is identified by its index in the \<open>vertexStore\<close> of the
  \<open>PlanarFaceTree\<close> instance: every record the code creates (the originals in
  \<open>discover\<close>, the clones in \<open>extractCycleFromClosedWalk\<close>) is pushed there, so the
  store is the arena of records and an adjacency \<open>Set<Vertex>\<close> is the list of the
  indices of its members in insertion order.
\<close>

type_synonym Position = "real \<times> real"
type_synonym InputNodes = "Position list"
type_synonym InputEdge = "int \<times> int"
type_synonym InputEdges = "InputEdge list"

datatype DiscoveryErrorCode =
    INVALID_COORDINATE_SYSTEM
  | EDGE_ENDPOINT_OUT_OF_BOUNDS
  | VERTICES_HAVE_SAME_POSITION
  | DUPLICATE_EDGE_FOUND
  | GRAPH_EMPTY

datatype exn = TypeError | DiscoveryFailure DiscoveryErrorCode

text \<open>
  What a call does: it returns a value, it throws, or the model ran out of fuel (the
  loops of the cycle extractor are bounded by a fuel argument; the code itself has no
  such bound, so it returns \<open>x\<close> exactly when some fuel gives \<open>Returns x\<close>).
\<close>

datatype 'a outcome = Returns 'a | Throws exn | OutOfFuel

datatype CycleTree = CycleTree (cycle: "int list") (children: "CycleTree list")

definition isEmpty :: "CycleTree \<Rightarrow> bool" where
  "isEmpty t = (length (cycle t) = 0 \<and> length (children t) = 0)"

datatype DiscoveryResult = RESULT (forest: "CycleTree list") | ERROR (reason: DiscoveryErrorCode)

section \<open>Validator\<close>

text \<open>
  The keys \<open>`${a}->${b}`\<close> of the two \<open>Set<string>\<close> are modelled by the pairs
  themselves: two keys are the same string exactly when both numbers are equal.
\<close>

fun validatePositions :: "Position list \<Rightarrow> Position list \<Rightarrow> DiscoveryErrorCode option" where
  "validatePositions posKeys [] = None"
| "validatePositions posKeys (position # rest) =
     (if position \<in> set posKeys then Some VERTICES_HAVE_SAME_POSITION
      else if fst position < 0 \<or> snd position < 0 then Some INVALID_COORDINATE_SYSTEM
      else validatePositions (position # posKeys) rest)"

fun validateEdges :: "int \<Rightarrow> InputEdge list \<Rightarrow> InputEdge list \<Rightarrow> DiscoveryErrorCode option" where
  "validateEdges maxNodeValue edgeKeys [] = None"
| "validateEdges maxNodeValue edgeKeys (edge # rest) =
     (if edge \<in> set edgeKeys then Some DUPLICATE_EDGE_FOUND
      else if fst edge < 0 \<or> fst edge > maxNodeValue \<or> snd edge < 0 \<or> snd edge > maxNodeValue
        then Some EDGE_ENDPOINT_OUT_OF_BOUNDS
      else validateEdges maxNodeValue (edge # edgeKeys) rest)"

definition validateInputs :: "InputNodes \<Rightarrow> InputEdges \<Rightarrow> DiscoveryErrorCode option" where
  "validateInputs positions inputEdges =
     (if length positions = 0 \<or> length inputEdges = 0 then Some GRAPH_EMPTY
      else case validatePositions [] positions of
             Some e \<Rightarrow> Some e
           | None \<Rightarrow> validateEdges (int (length positions) - 1) [] inputEdges)"

section \<open>Geometry kernel\<close>

datatype WindingOrder = CW | CCW | COLINEAR

text \<open>\<open>nodes[p]\<close>: \<open>undefined\<close> (here \<open>None\<close>) outside the array.\<close>

definition nodeAt :: "InputNodes \<Rightarrow> int \<Rightarrow> Position option" where
  "nodeAt nodes p = (if 0 \<le> p \<and> nat p < length nodes then Some (nodes ! nat p) else None)"

definition getPointPath :: "InputNodes \<Rightarrow> int list \<Rightarrow> Position option list" where
  "getPointPath nodes polygonEdges = map (nodeAt nodes) (take (length polygonEdges - 1) polygonEdges)"

text \<open>\<open>arr[ix + 1] ? arr[ix + 1] : arr[0]\<close> on an array of positions.\<close>

definition nextPoint :: "Position list \<Rightarrow> nat \<Rightarrow> Position" where
  "nextPoint points ix = (if ix + 1 < length points then points ! (ix + 1) else points ! 0)"

definition getLinePath :: "Position list \<Rightarrow> (Position \<times> Position) list" where
  "getLinePath points = map (\<lambda>ix. (points ! ix, nextPoint points ix)) [0..<length points]"

definition windingSum :: "Position list \<Rightarrow> real" where
  "windingSum points =
     foldl (\<lambda>acc ix. case points ! ix of (x1, y1) \<Rightarrow>
                       (case nextPoint points ix of (x2, y2) \<Rightarrow> acc + (x2 - x1) * (y2 + y1)))
           0 [0..<length points]"

definition determineWindingOrder :: "Position list \<Rightarrow> WindingOrder" where
  "determineWindingOrder points =
     (let res = windingSum points in
      if res = 0 then COLINEAR else if res > 0 then CW else CCW)"

text \<open>
  The callers hand \<open>determineWindingOrder\<close> arrays that may hold \<open>undefined\<close>; the
  reducer destructures every element, so one \<open>undefined\<close> element throws.
\<close>

fun definedPoints :: "Position option list \<Rightarrow> Position list option" where
  "definedPoints [] = Some []"
| "definedPoints (None # ps) = None"
| "definedPoints (Some p # ps) = (case definedPoints ps of None \<Rightarrow> None | Some qs \<Rightarrow> Some (p # qs))"

definition windingOrderOf :: "Position option list \<Rightarrow> WindingOrder outcome" where
  "windingOrderOf points =
     (case definedPoints points of
        None \<Rightarrow> Throws TypeError
      | Some pts \<Rightarrow> Returns (determineWindingOrder pts))"

definition getMaxX :: "Position list \<Rightarrow> real" where
  "getMaxX pos = foldl (\<lambda>mx p. if fst p > mx then fst p else mx) (- 1) pos"

definition onSegment :: "Position \<Rightarrow> Position \<Rightarrow> Position \<Rightarrow> bool" where
  "onSegment p q r =
     (fst q \<le> max (fst p) (fst r) \<and> fst q \<ge> min (fst p) (fst r) \<and>
      snd q \<le> max (snd p) (snd r) \<and> snd q \<ge> min (snd p) (snd r))"

definition intersect :: "Position \<Rightarrow> Position \<Rightarrow> Position \<Rightarrow> Position \<Rightarrow> bool" where
  "intersect p1 q1 p2 q2 =
     (let o1 = determineWindingOrder [p1, q1, p2];
          o2 = determineWindingOrder [p1, q1, q2];
          o3 = determineWindingOrder [p2, q2, p1];
          o4 = determineWindingOrder [p2, q2, q1]
      in if o1 \<noteq> o2 \<and> o3 \<noteq> o4 then True
         else if o1 = COLINEAR \<and> onSegment p1 p2 q1 then True
         else if o2 = COLINEAR \<and> onSegment p1 q2 q1 then True
         else if o3 = COLINEAR \<and> onSegment p2 p1 q2 then True
         else if o4 = COLINEAR \<and> onSegment p2 q1 q2 then True
         else False)"

fun pointLiesOnPolygonBoundary :: "Position \<Rightarrow> (Position \<times> Position) list \<Rightarrow> bool" where
  "pointLiesOnPolygonBoundary point [] = False"
| "pointLiesOnPolygonBoundary point ((from, to) # polygon) =
     (if determineWindingOrder [from, to, point] = COLINEAR \<and> onSegment from point to then True
      else pointLiesOnPolygonBoundary point polygon)"

text \<open>
  \<open>allPointsLieOnBoundary\<close> leaves at the first point off the boundary; an
  \<open>undefined\<close> point throws when it is reached and the boundary has a segment.
\<close>

fun allPointsLieOnBoundary :: "Position option list \<Rightarrow> (Position \<times> Position) list \<Rightarrow> bool outcome" where
  "allPointsLieOnBoundary [] b = Returns True"
| "allPointsLieOnBoundary (None # a) b = (if b = [] then Returns False else Throws TypeError)"
| "allPointsLieOnBoundary (Some aPt # a) b =
     (if \<not> pointLiesOnPolygonBoundary aPt b then Returns False else allPointsLieOnBoundary a b)"

text \<open>
  The \<open>do ... while (i != 0)\<close> loop of \<open>isInside\<close> visits \<open>i = 0, 1, ..., length - 1\<close>
  of a non-empty polygon, \<open>next\<close> being \<open>(i + 1) % length\<close>.
\<close>

fun isInsideLoop :: "Position list \<Rightarrow> Position \<Rightarrow> Position \<Rightarrow> nat \<Rightarrow> nat list \<Rightarrow> bool" where
  "isInsideLoop polygon p extreme count [] = (count mod 2 = 1)"
| "isInsideLoop polygon p extreme count (i # is) =
     (let next = (i + 1) mod length polygon in
      if intersect (polygon ! i) (polygon ! next) p extreme then
        (if determineWindingOrder [polygon ! i, p, polygon ! next] = COLINEAR
         then onSegment (polygon ! i) p (polygon ! next)
         else isInsideLoop polygon p extreme (count + 1) is)
      else isInsideLoop polygon p extreme count is)"

definition isInside :: "Position option \<Rightarrow> Position option list \<Rightarrow> bool outcome" where
  "isInside p polygon =
     (case definedPoints polygon of
        None \<Rightarrow> Throws TypeError
      | Some poly \<Rightarrow>
          (case p of
             None \<Rightarrow> Throws TypeError
           | Some pt \<Rightarrow>
               if poly = [] then Throws TypeError
               else Returns (isInsideLoop poly pt (getMaxX poly + 10, snd pt) 0 [0..<length poly])))"

definition areaUnderLineSegment :: "Position \<times> Position \<Rightarrow> real" where
  "areaUnderLineSegment seg =
     (case seg of ((x1, y1), (x2, y2)) \<Rightarrow>
        (let averageHeight = (y1 + y2) / 2; width = x2 - x1 in averageHeight * width))"

definition irregularPolygonArea :: "(Position \<times> Position) list \<Rightarrow> WindingOrder \<Rightarrow> real" where
  "irregularPolygonArea lineSegments windingOrder =
     (if windingOrder = COLINEAR then 0
      else foldl (\<lambda>acc seg. case windingOrder of
                     CW \<Rightarrow> acc + areaUnderLineSegment seg
                   | CCW \<Rightarrow> acc - areaUnderLineSegment seg
                   | COLINEAR \<Rightarrow> acc) 0 lineSegments)"

text \<open>\<open>polygon.edges\<close> is the only field of an \<open>InputPolygon\<close>; \<open>x || 0\<close> is \<open>x\<close> on numbers.\<close>

definition getPolygonArea :: "InputNodes \<Rightarrow> int list \<Rightarrow> real outcome" where
  "getPolygonArea nodes polygonEdges =
     (case definedPoints (getPointPath nodes polygonEdges) of
        None \<Rightarrow> Throws TypeError
      | Some pointPath \<Rightarrow>
          (let windingOrder = determineWindingOrder pointPath;
               linePath = getLinePath pointPath;
               a = irregularPolygonArea linePath windingOrder
           in Returns (if a = 0 then 0 else a)))"

section \<open>Nesting builder\<close>

text \<open>
  A \<open>Polygon\<close> of the area layer. Its \<open>visited\<close> flag is the only field that
  \<open>traverseAreas\<close> changes; the flags are threaded through the traversal as a list
  indexed like the sorted polygon list, the other fields stay in the record (\<open>ident\<close>
  is the field \<open>id\<close>). The \<open>children\<close> of an area tree node are \<open>subtrees\<close> here,
  \<open>children\<close> being the field of a \<open>CycleTree\<close>.
\<close>

record Polygon =
  edges :: "int list"
  ident :: nat
  area :: real

datatype AreaTree =
    is_ROOT: ROOT (subtrees: "AreaTree list")
  | is_CHILD: CHILD (polygonIndex: nat) (total: real) (withoutChildren: real)
          (subtrees: "AreaTree list") (polygon: "int list")

definition isChildArea :: "Polygon \<Rightarrow> AreaTree \<Rightarrow> Polygon list \<Rightarrow> InputNodes \<Rightarrow> bool outcome" where
  "isChildArea childPolygon parent polygons nodes =
     (let parentPointPath = getPointPath nodes (edges (polygons ! polygonIndex parent));
          currentPolygonPointPath = getPointPath nodes (edges childPolygon);
          pointOnCurrentPolygon = (case currentPolygonPointPath of [] \<Rightarrow> None | pt # _ \<Rightarrow> pt)
      in case isInside pointOnCurrentPolygon parentPointPath of
           Returns currentInsideParent \<Rightarrow>
             (case allPointsLieOnBoundary currentPolygonPointPath
                     (getLinePath (the (definedPoints parentPointPath))) of
                Returns currentLiesCompletelyOnBoundaryOfParent \<Rightarrow>
                  Returns (currentInsideParent \<and> \<not> currentLiesCompletelyOnBoundaryOfParent)
              | Throws e \<Rightarrow> Throws e
              | OutOfFuel \<Rightarrow> OutOfFuel)
         | Throws e \<Rightarrow> Throws e
         | OutOfFuel \<Rightarrow> OutOfFuel)"

definition pushChild :: "AreaTree \<Rightarrow> AreaTree \<Rightarrow> real \<Rightarrow> AreaTree" where
  "pushChild parent newTree a =
     (case parent of
        ROOT cs \<Rightarrow> ROOT (cs @ [newTree])
      | CHILD ix tot wo cs poly \<Rightarrow> CHILD ix tot (wo - a) (cs @ [newTree]) poly)"

function traverseAreas ::
  "InputNodes \<Rightarrow> Polygon list \<Rightarrow> AreaTree \<Rightarrow> nat \<Rightarrow> bool list \<Rightarrow> (AreaTree \<times> bool list) outcome" where
  "traverseAreas nodes polygons parent i visited =
     (if \<not> i < length polygons then Returns (parent, visited)
      else
        let p = polygons ! i in
        if visited ! i then traverseAreas nodes polygons parent (i + 1) visited
        else
          (case (if is_ROOT parent then Returns True else isChildArea p parent polygons nodes) of
             Throws e \<Rightarrow> Throws e
           | OutOfFuel \<Rightarrow> OutOfFuel
           | Returns False \<Rightarrow> traverseAreas nodes polygons parent (i + 1) visited
           | Returns True \<Rightarrow>
               (let newTree = CHILD i (area p) (area p) [] (edges p);
                    visited1 = visited[i := True]
                in case (if i + 1 < length polygons
                         then traverseAreas nodes polygons newTree (i + 1) visited1
                         else Returns (newTree, visited1)) of
                     Throws e \<Rightarrow> Throws e
                   | OutOfFuel \<Rightarrow> OutOfFuel
                   | Returns (newTree', visited2) \<Rightarrow>
                       traverseAreas nodes polygons (pushChild parent newTree' (area p))
                         (i + 1) visited2)))"
  by pat_completeness auto
termination
  by (relation "measure (\<lambda>(nodes, polygons, parent, i, visited). length polygons - i)") auto

text \<open>
  \<open>sort((a, b) => b.area - a.area)\<close>: descending by area, polygons of equal area keep
  their order (the sort of the language is stable).
\<close>

fun insertByArea :: "Polygon \<Rightarrow> Polygon list \<Rightarrow> Polygon list" where
  "insertByArea p [] = [p]"
| "insertByArea p (q # qs) = (if area q \<le> area p then p # q # qs else q # insertByArea p qs)"

definition sortByArea :: "Polygon list \<Rightarrow> Polygon list" where
  "sortByArea ps = foldr insertByArea ps []"

fun polygonAreas :: "InputNodes \<Rightarrow> nat \<Rightarrow> int list list \<Rightarrow> Polygon list outcome" where
  "polygonAreas nodes ix [] = Returns []"
| "polygonAreas nodes ix (es # rest) =
     (case getPolygonArea nodes es of
        Throws e \<Rightarrow> Throws e
      | OutOfFuel \<Rightarrow> OutOfFuel
      | Returns a \<Rightarrow>
          (case polygonAreas nodes (ix + 1) rest of
             Throws e \<Rightarrow> Throws e
           | OutOfFuel \<Rightarrow> OutOfFuel
           | Returns ps \<Rightarrow> Returns (\<lparr>edges = es, ident = ix, area = a\<rparr> # ps)))"

definition buildNestingTree :: "InputNodes \<Rightarrow> int list list \<Rightarrow> AreaTree outcome" where
  "buildNestingTree nodes polygons =
     (case polygonAreas nodes 0 polygons of
        Throws e \<Rightarrow> Throws e
      | OutOfFuel \<Rightarrow> OutOfFuel
      | Returns ps \<Rightarrow>
          (let inputPolygons = sortByArea ps in
           case traverseAreas nodes inputPolygons (ROOT []) 0
                  (replicate (length inputPolygons) False) of
             Throws e \<Rightarrow> Throws e
           | OutOfFuel \<Rightarrow> OutOfFuel
           | Returns (tree, _) \<Rightarrow> Returns tree))"

fun allCycles :: "CycleTree \<Rightarrow> int list list" where
  "allCycles (CycleTree c ts) = c # concat (map allCycles ts)"

definition getCyclesFromCycleForest :: "CycleTree list \<Rightarrow> int list list" where
  "getCyclesFromCycleForest trees = filter (\<lambda>arr. length arr \<noteq> 0) (concat (map allCycles trees))"

section \<open>Graph model\<close>

text \<open>
  A \<open>Vertex\<close> record; \<open>adjacent\<close> lists the store indices of the members of the
  \<open>Set<Vertex>\<close> in insertion order, which is the order in which the code iterates it.
\<close>

record Vertex =
  name :: int
  position :: Position
  visited :: nat
  adjacent :: "nat list"

type_synonym VertexStore = "Vertex list"

definition setAdd :: "'a list \<Rightarrow> 'a \<Rightarrow> 'a list" where
  "setAdd xs v = (if v \<in> set xs then xs else xs @ [v])"

definition setDelete :: "'a list \<Rightarrow> 'a \<Rightarrow> 'a list" where
  "setDelete xs v = removeAll v xs"

definition addAdjacent :: "VertexStore \<Rightarrow> nat \<Rightarrow> nat \<Rightarrow> VertexStore" where
  "addAdjacent store u v = store[u := (store ! u)\<lparr>adjacent := setAdd (adjacent (store ! u)) v\<rparr>]"

definition deleteAdjacent :: "VertexStore \<Rightarrow> nat \<Rightarrow> nat \<Rightarrow> VertexStore" where
  "deleteAdjacent store u v = store[u := (store ! u)\<lparr>adjacent := setDelete (adjacent (store ! u)) v\<rparr>]"

definition setVisited :: "VertexStore \<Rightarrow> nat \<Rightarrow> nat \<Rightarrow> VertexStore" where
  "setVisited store v n = store[v := (store ! v)\<lparr>visited := n\<rparr>]"

definition obind :: "'a outcome \<Rightarrow> ('a \<Rightarrow> 'b outcome) \<Rightarrow> 'b outcome" where
  "obind m f = (case m of Returns x \<Rightarrow> f x | Throws e \<Rightarrow> Throws e | OutOfFuel \<Rightarrow> OutOfFuel)"

section \<open>Connected components\<close>

text \<open>
  The stack of \<open>depthFirstSearch\<close> is a list whose head is the top. The inner \<open>for\<close>
  loop stops at the first adjacent record that is unvisited and pushes it; when there is
  none, \<open>i\<close> has reached the size of the adjacency and the vertex is finished.
\<close>

fun dfsLoop :: "nat \<Rightarrow> VertexStore \<Rightarrow> nat list \<Rightarrow> nat list \<Rightarrow> (VertexStore \<times> nat list) outcome" where
  "dfsLoop 0 store vStack component = OutOfFuel"
| "dfsLoop (Suc fuel) store [] component = Returns (store, component)"
| "dfsLoop (Suc fuel) store (vertex # rest) component =
     (let store1 = setVisited store vertex 1 in
      case find (\<lambda>a. visited (store1 ! a) = 0) (adjacent (store1 ! vertex)) of
        Some a \<Rightarrow> dfsLoop fuel store1 (a # vertex # rest) component
      | None \<Rightarrow> dfsLoop fuel (setVisited store1 vertex 2) rest (component @ [vertex]))"

definition depthFirstSearch :: "nat \<Rightarrow> VertexStore \<Rightarrow> nat \<Rightarrow> (VertexStore \<times> nat list) outcome" where
  "depthFirstSearch fuel store vInitial = dfsLoop fuel store [vInitial] []"

section \<open>Planar walker\<close>

definition sub :: "Position \<Rightarrow> Position \<Rightarrow> Position" where
  "sub a b = (fst a - fst b, snd a - snd b)"

definition dCurrOf :: "VertexStore \<Rightarrow> nat option \<Rightarrow> nat \<Rightarrow> Position" where
  "dCurrOf store vPrev vCurr =
     (case vPrev of
        Some p \<Rightarrow> sub (position (store ! vCurr)) (position (store ! p))
      | None \<Rightarrow> (0, - 1))"

definition cwStep ::
  "VertexStore \<Rightarrow> nat option \<Rightarrow> nat \<Rightarrow> Position \<Rightarrow> nat option \<times> Position \<times> bool \<Rightarrow> nat
     \<Rightarrow> nat option \<times> Position \<times> bool" where
  "cwStep store vPrev vCurr dCurr st vAdj =
     (case st of (vNext, dNext, vCurrConvex) \<Rightarrow>
        if Some vAdj = vPrev then st
        else
          let dAdj = sub (position (store ! vAdj)) (position (store ! vCurr)) in
          if vNext = None then
            (Some vAdj, dAdj, fst dAdj * snd dCurr \<le> snd dAdj * fst dCurr)
          else if vCurrConvex then
            (if fst dCurr * snd dAdj < snd dCurr * fst dAdj \<or> fst dNext * snd dAdj < snd dNext * fst dAdj
             then (Some vAdj, dAdj, fst dAdj * snd dCurr \<le> snd dAdj * fst dCurr)
             else st)
          else
            (if fst dCurr * snd dAdj < snd dCurr * fst dAdj \<and> fst dNext * snd dAdj < snd dNext * fst dAdj
             then (Some vAdj, dAdj, fst dAdj * snd dCurr < snd dAdj * fst dCurr)
             else st))"

definition getClockwiseMost :: "VertexStore \<Rightarrow> nat option \<Rightarrow> nat \<Rightarrow> nat option" where
  "getClockwiseMost store vPrev vCurr =
     fst (foldl (cwStep store vPrev vCurr (dCurrOf store vPrev vCurr)) (None, (0, 0), False)
            (adjacent (store ! vCurr)))"

definition ccwStep ::
  "VertexStore \<Rightarrow> nat option \<Rightarrow> nat \<Rightarrow> Position \<Rightarrow> nat option \<times> Position \<times> bool \<Rightarrow> nat
     \<Rightarrow> nat option \<times> Position \<times> bool" where
  "ccwStep store vPrev vCurr dCurr st vAdj =
     (case st of (vNext, dNext, vCurrConvex) \<Rightarrow>
        if Some vAdj = vPrev then st
        else
          let dAdj = sub (position (store ! vAdj)) (position (store ! vCurr)) in
          if vNext = None then
            (Some vAdj, dAdj, fst dAdj * snd dCurr \<le> snd dAdj * fst dCurr)
          else if vCurrConvex then
            (if fst dCurr * snd dAdj > snd dCurr * fst dAdj \<and> fst dNext * snd dAdj > snd dNext * fst dAdj
             then (Some vAdj, dAdj, fst dAdj * snd dCurr \<le> snd dAdj * fst dCurr)
             else st)
          else
            (if fst dCurr * snd dAdj > snd dCurr * fst dAdj \<or> fst dNext * snd dAdj > snd dNext * fst dAdj
             then (Some vAdj, dAdj, fst dAdj * snd dCurr \<le> snd dAdj * fst dCurr)
             else st))"

definition getCounterClockwiseMost :: "VertexStore \<Rightarrow> nat option \<Rightarrow> nat \<Rightarrow> nat option" where
  "getCounterClockwiseMost store vPrev vCurr =
     fst (foldl (ccwStep store vPrev vCurr (dCurrOf store vPrev vCurr)) (None, (0, 0), False)
            (adjacent (store ! vCurr)))"

section \<open>Filament pruner\<close>

text \<open>The \<open>while (vertex.adjacent.size === 1)\<close> walk along one filament.\<close>

fun filamentWalk :: "nat \<Rightarrow> VertexStore \<Rightarrow> nat \<Rightarrow> VertexStore outcome" where
  "filamentWalk 0 store vertex = OutOfFuel"
| "filamentWalk (Suc fuel) store vertex =
     (if length (adjacent (store ! vertex)) = 1 then
        (let adj = adjacent (store ! vertex) ! 0;
             store1 = deleteAdjacent store adj vertex;
             store2 = deleteAdjacent store1 vertex adj
         in filamentWalk fuel store2 adj)
      else Returns store)"

fun pruneEndpoints :: "nat \<Rightarrow> VertexStore \<Rightarrow> nat list \<Rightarrow> VertexStore outcome" where
  "pruneEndpoints fuel store [] = Returns store"
| "pruneEndpoints fuel store (v # endpoints) =
     (if length (adjacent (store ! v)) = 1
      then obind (filamentWalk fuel store v) (\<lambda>store1. pruneEndpoints fuel store1 endpoints)
      else pruneEndpoints fuel store endpoints)"

definition removeFilaments :: "nat \<Rightarrow> VertexStore \<Rightarrow> nat list \<Rightarrow> (VertexStore \<times> nat list) outcome" where
  "removeFilaments fuel store component =
     (let endpoints = filter (\<lambda>vertex. length (adjacent (store ! vertex)) = 1) component in
      if length endpoints > 0 then
        obind (pruneEndpoints fuel store endpoints)
          (\<lambda>store1. Returns (store1, filter (\<lambda>vertex. length (adjacent (store1 ! vertex)) > 0) component))
      else Returns (store, component))"

section \<open>Cycle extractor\<close>

text \<open>The first and the second \<open>while\<close> loop of \<open>extractCycle\<close>.\<close>

fun unwindForward :: "nat \<Rightarrow> VertexStore \<Rightarrow> nat option \<Rightarrow> nat \<Rightarrow> (VertexStore \<times> nat) outcome" where
  "unwindForward 0 store vBranch v1 = OutOfFuel"
| "unwindForward (Suc fuel) store vBranch v1 =
     (if Some v1 \<noteq> vBranch \<and> length (adjacent (store ! v1)) = 1 then
        (let adj = adjacent (store ! v1) ! 0;
             store1 = deleteAdjacent store v1 adj;
             store2 = deleteAdjacent store1 adj v1
         in unwindForward fuel store2 vBranch adj)
      else Returns (store, v1))"

fun unwindBackward :: "nat \<Rightarrow> VertexStore \<Rightarrow> nat \<Rightarrow> nat \<Rightarrow> VertexStore outcome" where
  "unwindBackward 0 store vBranch v0 = OutOfFuel"
| "unwindBackward (Suc fuel) store vBranch v0 =
     (if v0 \<noteq> vBranch \<and> length (adjacent (store ! v0)) = 1 then
        (let v1 = adjacent (store ! v0) ! 0;
             store1 = deleteAdjacent store v0 v1;
             store2 = deleteAdjacent store1 v1 v0
         in unwindBackward fuel store2 vBranch v1)
      else Returns store)"

definition extractCycle :: "nat \<Rightarrow> VertexStore \<Rightarrow> nat list \<Rightarrow> (int list \<times> VertexStore) outcome" where
  "extractCycle fuel store closedWalk =
     (if length closedWalk < 2 then Throws TypeError
      else
        let cyc = map (\<lambda>v. name (store ! v)) closedWalk;
            v0 = closedWalk ! 0;
            v1 = closedWalk ! 1;
            vBranch = (if length (adjacent (store ! v0)) > 2 then Some v0 else None);
            store1 = deleteAdjacent store v0 v1;
            store2 = deleteAdjacent store1 v1 v0
        in obind (unwindForward fuel store2 vBranch v1) (\<lambda>(store3, v1').
             if v1' \<noteq> v0
             then obind (unwindBackward fuel store3 v1' v0) (\<lambda>store4. Returns (cyc, store4))
             else Returns (cyc, store3)))"

text \<open>
  The scan of \<open>extractCycleFromClosedWalk\<close> that cuts the self-intersections out of the
  closed walk. \<open>duplicates\<close> is the \<open>Map<Vertex, number>\<close> (\<open>get(..) || null\<close> reads an
  entry \<open>0\<close> as absent), \<open>detachments\<close> the \<open>Set<number>\<close> in insertion order.
\<close>

fun forgetBetween :: "nat list \<Rightarrow> (nat \<rightharpoonup> nat) \<Rightarrow> nat list \<Rightarrow> nat list \<Rightarrow> (nat \<rightharpoonup> nat) \<times> nat list" where
  "forgetBetween closedWalk duplicates detachments [] = (duplicates, detachments)"
| "forgetBetween closedWalk duplicates detachments (j # js) =
     forgetBetween closedWalk (duplicates((closedWalk ! j) := None)) (setDelete detachments j) js"

fun simplifyWalk ::
  "nat \<Rightarrow> nat list \<Rightarrow> (nat \<rightharpoonup> nat) \<Rightarrow> nat list \<Rightarrow> nat \<Rightarrow> (nat list \<times> nat list) outcome" where
  "simplifyWalk 0 closedWalk duplicates detachments i = OutOfFuel"
| "simplifyWalk (Suc fuel) closedWalk duplicates detachments i =
     (if i + 1 < length closedWalk then
        (case (case duplicates (closedWalk ! i) of None \<Rightarrow> None
                                                | Some k \<Rightarrow> if k = 0 then None else Some k) of
           None \<Rightarrow> simplifyWalk fuel closedWalk (duplicates((closedWalk ! i) \<mapsto> i)) detachments (i + 1)
         | Some iMin \<Rightarrow>
             (let iMax = i;
                  (duplicates1, detachments1) =
                     forgetBetween closedWalk duplicates (setAdd detachments iMin) [iMin + 1..<iMax];
                  startDeletionAt = iMin + 1;
                  deleteCount = (iMax + 1) - startDeletionAt;
                  closedWalk1 = take startDeletionAt closedWalk @ drop (startDeletionAt + deleteCount) closedWalk
              in simplifyWalk fuel closedWalk1 duplicates1 detachments1 (iMin + 1)))
      else Returns (closedWalk, detachments))"

definition wedgeVertices :: "VertexStore \<Rightarrow> nat \<Rightarrow> nat \<Rightarrow> nat \<Rightarrow> nat list" where
  "wedgeVertices store original minVertex maxVertex =
     (let dMin = sub (position (store ! minVertex)) (position (store ! original));
          dMax = sub (position (store ! maxVertex)) (position (store ! original));
          isConvex = (fst dMax * snd dMin \<ge> snd dMax * fst dMin)
      in filter (\<lambda>vertex.
           if name (store ! vertex) = name (store ! minVertex) \<or>
              name (store ! vertex) = name (store ! maxVertex) then False
           else
             let dVer = sub (position (store ! vertex)) (position (store ! original)) in
             if isConvex
             then fst dVer * snd dMin > snd dVer * fst dMin \<and> fst dVer * snd dMax < snd dVer * fst dMax
             else fst dVer * snd dMin > snd dVer * fst dMin \<or> fst dVer * snd dMax < snd dVer * fst dMax)
          (adjacent (store ! original)))"

text \<open>
  \<open>new Vertex(original.name, [...original.position])\<close> pushed on the store, and the edges
  to the given vertices moved from the original to the clone.
\<close>

definition moveEdge :: "nat \<Rightarrow> nat \<Rightarrow> VertexStore \<Rightarrow> nat \<Rightarrow> VertexStore" where
  "moveEdge original clone store vertex =
     addAdjacent (addAdjacent (deleteAdjacent (deleteAdjacent store original vertex) vertex original)
                    clone vertex) vertex clone"

definition detachToClone :: "VertexStore \<Rightarrow> nat \<Rightarrow> nat list \<Rightarrow> VertexStore \<times> nat" where
  "detachToClone store original vertices =
     (let clone = length store;
          store1 = store @ [\<lparr>name = name (store ! original), position = position (store ! original),
                            visited = 0, adjacent = []\<rparr>]
      in (foldl (moveEdge original clone) store1 vertices, clone))"

definition unwrap :: "CycleTree \<Rightarrow> CycleTree" where
  "unwrap tree =
     (if length (cycle tree) = 0 \<and> length (children tree) = 1
      then (let child = last (children tree) in CycleTree (cycle child) (children child))
      else tree)"

definition leftOf :: "VertexStore \<Rightarrow> nat \<Rightarrow> nat \<Rightarrow> nat" where
  "leftOf store minVertex vertex =
     (let m1 = (if fst (position (store ! vertex)) = fst (position (store ! minVertex))
                then (if snd (position (store ! vertex)) < snd (position (store ! minVertex))
                      then vertex else minVertex)
                else minVertex)
      in if fst (position (store ! vertex)) < fst (position (store ! m1)) then vertex else m1)"

text \<open>
  The loop that builds the closed walk. \<open>vAdj\<close> is \<open>None\<close> when the walker found no
  vertex: the code pushes the \<open>null\<close> and \<open>getCounterClockwiseMost\<close> reads its position.
\<close>

fun closedWalkLoop ::
  "nat \<Rightarrow> VertexStore \<Rightarrow> nat \<Rightarrow> nat list \<Rightarrow> nat \<Rightarrow> nat option \<Rightarrow> nat list outcome" where
  "closedWalkLoop 0 store vStart closedWalk vCurr vAdj = OutOfFuel"
| "closedWalkLoop (Suc fuel) store vStart closedWalk vCurr vAdj =
     (case vAdj of
        None \<Rightarrow> Throws TypeError
      | Some a \<Rightarrow>
          if a \<noteq> vStart
          then closedWalkLoop fuel store vStart (closedWalk @ [a]) a
                 (getCounterClockwiseMost store (Some vCurr) a)
          else Returns (closedWalk @ [vStart]))"

text \<open>
  \<open>extractBasis\<close> and \<open>extractCycleFromClosedWalk\<close> call each other. The recursion is
  written with the callee as an argument: \<open>basis\<close> stands for \<open>this.extractBasis\<close> in
  the functions it is called from, and \<open>extractBasis\<close> ties the knot, one unit of fuel
  for each level of nesting.
\<close>

type_synonym Basis = "VertexStore \<Rightarrow> nat list \<Rightarrow> (CycleTree \<times> VertexStore) outcome"

fun detachAll ::
  "Basis \<Rightarrow> nat \<Rightarrow> VertexStore \<Rightarrow> nat list \<Rightarrow> nat list \<Rightarrow> CycleTree list
     \<Rightarrow> (CycleTree list \<times> VertexStore) outcome" where
  "detachAll basis fuel store walk [] kids = Returns (kids, store)"
| "detachAll basis fuel store walk (i # rest) kids =
     (if \<not> i + 1 < length walk then Throws TypeError
      else
        let original = walk ! i;
            maxVertex = walk ! (i + 1);
            minVertex = (if i > 0 then walk ! (i - 1) else walk ! (length walk - 2));
            inWedge = wedgeVertices store original minVertex maxVertex
        in if length inWedge > 0 then
             (let (store1, clone) = detachToClone store original inWedge
              in obind (depthFirstSearch fuel store1 clone) (\<lambda>(store2, component).
                   obind (basis store2 component) (\<lambda>(t, store3).
                     detachAll basis fuel store3 walk rest (kids @ [t]))))
           else detachAll basis fuel store walk rest kids)"

definition extractCycleFromClosedWalk ::
  "Basis \<Rightarrow> nat \<Rightarrow> VertexStore \<Rightarrow> nat list \<Rightarrow> (CycleTree \<times> VertexStore) outcome" where
  "extractCycleFromClosedWalk basis fuel store closedWalk =
     obind (simplifyWalk fuel closedWalk Map.empty [] 1) (\<lambda>(walk, detachments).
       if length walk > 3 then
         obind (detachAll basis fuel store walk (setAdd detachments 0) []) (\<lambda>(kids, store1).
           obind (extractCycle fuel store1 walk) (\<lambda>(cyc, store2).
             Returns (CycleTree cyc kids, store2)))
       else if length walk < 2 then Throws TypeError
       else
         (let original = walk ! 0;
              adj = walk ! 1;
              (store1, clone) = detachToClone store original [adj]
          in obind (depthFirstSearch fuel store1 clone) (\<lambda>(store2, component).
               obind (basis store2 component) (\<lambda>(t, store3).
                 Returns (unwrap (CycleTree [] [t]), store3)))))"

definition extractCycleFromComponent ::
  "Basis \<Rightarrow> nat \<Rightarrow> VertexStore \<Rightarrow> nat list \<Rightarrow> (CycleTree \<times> VertexStore \<times> nat list) outcome" where
  "extractCycleFromComponent basis fuel store component =
     (if component = [] then Throws TypeError
      else
        let minVertex = foldl (leftOf store) (component ! 0) component;
            vStart = minVertex
        in obind (closedWalkLoop fuel store vStart [vStart] vStart
                    (getClockwiseMost store None vStart)) (\<lambda>closedWalk.
             obind (extractCycleFromClosedWalk basis fuel store closedWalk) (\<lambda>(tree, store1).
               Returns (tree, store1,
                        filter (\<lambda>vertex. length (adjacent (store1 ! vertex)) > 0) component))))"

text \<open>The \<open>while (component.value.length > 0)\<close> loop of \<open>extractBasis\<close>.\<close>

fun extractBasisLoop ::
  "Basis \<Rightarrow> nat \<Rightarrow> nat \<Rightarrow> VertexStore \<Rightarrow> nat list \<Rightarrow> CycleTree list
     \<Rightarrow> (CycleTree list \<times> VertexStore) outcome" where
  "extractBasisLoop basis fuel 0 store component kids = OutOfFuel"
| "extractBasisLoop basis fuel (Suc n) store component kids =
     (if length component > 0 then
        obind (removeFilaments fuel store component) (\<lambda>(store1, component1).
          if length component1 > 0 then
            obind (extractCycleFromComponent basis fuel store1 component1) (\<lambda>(t, store2, component2).
              extractBasisLoop basis fuel n store2 component2 (kids @ [t]))
          else Returns (kids, store1))
      else Returns (kids, store))"

primrec extractBasis :: "nat \<Rightarrow> VertexStore \<Rightarrow> nat list \<Rightarrow> (CycleTree \<times> VertexStore) outcome" where
  "extractBasis 0 store component = OutOfFuel"
| "extractBasis (Suc fuel) store component =
     obind (extractBasisLoop (extractBasis fuel) (Suc fuel) (Suc fuel) store component [])
       (\<lambda>(kids, store1). Returns (unwrap (CycleTree [] kids), store1))"

section \<open>Discovery\<close>

fun uniqueNames :: "int list \<Rightarrow> InputEdges \<Rightarrow> int list" where
  "uniqueNames names [] = names"
| "uniqueNames names (edge # rest) = uniqueNames (setAdd (setAdd names (fst edge)) (snd edge)) rest"

fun addEdges :: "(int \<rightharpoonup> nat) \<Rightarrow> VertexStore \<Rightarrow> InputEdges \<Rightarrow> VertexStore" where
  "addEdges unique store [] = store"
| "addEdges unique store (edge # rest) =
     (case (unique (fst edge), unique (snd edge)) of
        (Some iter0, Some iter1) \<Rightarrow>
          addEdges unique (addAdjacent (addAdjacent store iter0 iter1) iter1 iter0) rest
      | _ \<Rightarrow> addEdges unique store rest)"

fun findComponents ::
  "nat \<Rightarrow> VertexStore \<Rightarrow> nat list \<Rightarrow> nat list list \<Rightarrow> (VertexStore \<times> nat list list) outcome" where
  "findComponents fuel store [] components = Returns (store, components)"
| "findComponents fuel store (vInitial # rest) components =
     (if visited (store ! vInitial) = 0 then
        obind (depthFirstSearch fuel store vInitial) (\<lambda>(store1, component).
          findComponents fuel store1 rest (components @ [component]))
      else findComponents fuel store rest components)"

fun extractForest ::
  "nat \<Rightarrow> VertexStore \<Rightarrow> nat list list \<Rightarrow> CycleTree list \<Rightarrow> (CycleTree list \<times> VertexStore) outcome" where
  "extractForest fuel store [] trees = Returns (trees, store)"
| "extractForest fuel store (component # rest) trees =
     obind (extractBasis fuel store component) (\<lambda>(t, store1).
       extractForest fuel store1 rest (trees @ [t]))"

text \<open>
  \<open>discover\<close> on an instance whose \<open>vertexStore\<close> is \<open>store\<close>; the second component of
  the result is the store the call leaves behind. A fresh instance has the store \<open>[]\<close>.
\<close>

definition discover ::
  "nat \<Rightarrow> VertexStore \<Rightarrow> InputNodes \<Rightarrow> InputEdges \<Rightarrow> (DiscoveryResult \<times> VertexStore) outcome" where
  "discover fuel store positions inputEdges =
     (case validateInputs positions inputEdges of
        Some validationError \<Rightarrow> Returns (ERROR validationError, store)
      | None \<Rightarrow>
          (let names = uniqueNames [] inputEdges;
               base = length store;
               unique = map_of (zip names [base..<base + length names]);
               store1 = store @ map (\<lambda>n. \<lparr>name = n, position = positions ! nat n,
                                           visited = 0, adjacent = []\<rparr>) names;
               store2 = addEdges unique store1 inputEdges
           in obind (findComponents fuel store2 [0..<length store2] []) (\<lambda>(store3, components).
                let store4 = map (\<lambda>vertex. vertex\<lparr>visited := 0\<rparr>) store3 in
                obind (extractForest fuel store4 components []) (\<lambda>(trees, store5).
                  Returns (RESULT (filter (\<lambda>t. \<not> isEmpty t) trees), store5)))))"

section \<open>Area tree\<close>

definition getAreaTree :: "nat \<Rightarrow> InputNodes \<Rightarrow> InputEdges \<Rightarrow> AreaTree outcome" where
  "getAreaTree fuel nodes inputEdges =
     obind (discover fuel [] nodes inputEdges) (\<lambda>(faces, _).
       case faces of
         ERROR r \<Rightarrow> Throws (DiscoveryFailure r)
       | RESULT trees \<Rightarrow> buildNestingTree nodes (getCyclesFromCycleForest trees))"

section \<open>Notions used in the statements\<close>

text \<open>
  The precedence reading of the validator: the error is the first one, in the order
  \<open>GRAPH_EMPTY\<close>, \<open>VERTICES_HAVE_SAME_POSITION\<close>, \<open>INVALID_COORDINATE_SYSTEM\<close>,
  \<open>EDGE_ENDPOINT_OUT_OF_BOUNDS\<close>, \<open>DUPLICATE_EDGE_FOUND\<close>, whose condition holds
  anywhere in the input.
\<close>

definition negativePosition :: "Position \<Rightarrow> bool" where
  "negativePosition p = (fst p < 0 \<or> snd p < 0)"

definition outOfBounds :: "InputNodes \<Rightarrow> InputEdge \<Rightarrow> bool" where
  "outOfBounds positions e =
     (fst e < 0 \<or> fst e > int (length positions) - 1 \<or> snd e < 0 \<or> snd e > int (length positions) - 1)"

definition precedenceError :: "InputNodes \<Rightarrow> InputEdges \<Rightarrow> DiscoveryErrorCode option" where
  "precedenceError positions inputEdges =
     (if positions = [] \<or> inputEdges = [] then Some GRAPH_EMPTY
      else if \<not> distinct positions then Some VERTICES_HAVE_SAME_POSITION
      else if list_ex negativePosition positions then Some INVALID_COORDINATE_SYSTEM
      else if list_ex (outOfBounds positions) inputEdges then Some EDGE_ENDPOINT_OUT_OF_BOUNDS
      else if \<not> distinct inputEdges then Some DUPLICATE_EDGE_FOUND
      else None)"

text \<open>
  The scan-order reading: the emptiness check, then the first position (in index order)
  that repeats an earlier one or has a negative coordinate, then the first edge that
  repeats an earlier one or has an endpoint out of bounds.
\<close>

definition badPositionAt :: "InputNodes \<Rightarrow> nat \<Rightarrow> bool" where
  "badPositionAt positions j =
     (positions ! j \<in> set (take j positions) \<or> negativePosition (positions ! j))"

definition badEdgeAt :: "InputNodes \<Rightarrow> InputEdges \<Rightarrow> nat \<Rightarrow> bool" where
  "badEdgeAt positions inputEdges i =
     (inputEdges ! i \<in> set (take i inputEdges) \<or> outOfBounds positions (inputEdges ! i))"

definition scanOrderError :: "InputNodes \<Rightarrow> InputEdges \<Rightarrow> DiscoveryErrorCode option" where
  "scanOrderError positions inputEdges =
     (if positions = [] \<or> inputEdges = [] then Some GRAPH_EMPTY
      else case find (badPositionAt positions) [0..<length positions] of
             Some j \<Rightarrow> Some (if positions ! j \<in> set (take j positions)
                              then VERTICES_HAVE_SAME_POSITION else INVALID_COORDINATE_SYSTEM)
           | None \<Rightarrow>
               (case find (badEdgeAt positions inputEdges) [0..<length inputEdges] of
                  Some i \<Rightarrow> Some (if inputEdges ! i \<in> set (take i inputEdges)
                                   then DUPLICATE_EDGE_FOUND else EDGE_ENDPOINT_OUT_OF_BOUNDS)
                | None \<Rightarrow> None))"


definition validIndices :: "InputNodes \<Rightarrow> int list \<Rightarrow> bool" where
  "validIndices nodes polygonEdges = list_all (\<lambda>p. 0 \<le> p \<and> nat p < length nodes) polygonEdges"



text \<open>
  What the cycle extractor keeps true of the store. \<open>symAdj\<close>: every adjacency entry is
  a record of the store and the adjacency is symmetric. \<open>evolves\<close>: the store only
  grows, a record keeps its name, a record without adjacent records stays so, and the
  name of an added record is the name of an earlier one.
  \<open>newEmpty\<close>: the records added are left without adjacent records.
\<close>

definition symAdj :: "VertexStore \<Rightarrow> bool" where
  "symAdj s = (\<forall>u < length s. \<forall>v \<in> set (adjacent (s ! u)). v < length s \<and> u \<in> set (adjacent (s ! v)))"

definition evolves :: "VertexStore \<Rightarrow> VertexStore \<Rightarrow> bool" where
  "evolves s s' =
     (length s \<le> length s' \<and>
      (\<forall>i < length s. name (s' ! i) = name (s ! i) \<and> (adjacent (s ! i) = [] \<longrightarrow> adjacent (s' ! i) = [])) \<and>
      (\<forall>i. length s \<le> i \<and> i < length s' \<longrightarrow> (\<exists>j < length s. name (s' ! i) = name (s ! j))))"

definition newEmpty :: "VertexStore \<Rightarrow> VertexStore \<Rightarrow> bool" where
  "newEmpty s s' = (\<forall>i. length s \<le> i \<and> i < length s' \<longrightarrow> adjacent (s' ! i) = [])"

text \<open>
  A cycle that is the name sequence of a closed walk of records of the store in which no
  record occurs twice, the closing duplicate apart.
\<close>

definition recordCycle :: "VertexStore \<Rightarrow> int list \<Rightarrow> bool" where
  "recordCycle s c =
     (\<exists>walk. c = map (\<lambda>v. name (s ! v)) walk \<and> 4 \<le> length walk \<and> hd walk = last walk \<and>
             distinct (butlast walk) \<and> list_all (\<lambda>v. v < length s) walk)"

definition cyclesOK :: "VertexStore \<Rightarrow> CycleTree \<Rightarrow> bool" where
  "cyclesOK s t = list_all (\<lambda>c. c = [] \<or> recordCycle s c) (allCycles t)"

definition namesIn :: "int \<Rightarrow> VertexStore \<Rightarrow> bool" where
  "namesIn n s = list_all (\<lambda>v. 0 \<le> name v \<and> name v < n) s"

definition inStore :: "VertexStore \<Rightarrow> nat list \<Rightarrow> bool" where
  "inStore s vs = list_all (\<lambda>v. v < length s) vs"

text \<open>
  What the scan of the closed walk keeps true: \<open>duplicates\<close> holds exactly the entries
  \<open>w[k] \<mapsto> k\<close> for the positions \<open>1 \<le> k < i\<close> already scanned.
\<close>

definition walkInv :: "nat list \<Rightarrow> (nat \<rightharpoonup> nat) \<Rightarrow> nat \<Rightarrow> bool" where
  "walkInv w duplicates i =
     (1 \<le> i \<and> (\<forall>v k. duplicates v = Some k \<longleftrightarrow> (1 \<le> k \<and> k < i \<and> w ! k = v)))"

text \<open>What is assumed of the callee \<open>basis\<close> and proved of \<open>extractBasis\<close>.\<close>

definition basisSpec :: "Basis \<Rightarrow> bool" where
  "basisSpec basis =
     (\<forall>s component t s'.
        symAdj s \<and> inStore s component \<and> basis s component = Returns (t, s') \<longrightarrow>
          symAdj s' \<and> evolves s s' \<and> newEmpty s s' \<and>
          list_all (\<lambda>v. adjacent (s' ! v) = []) component \<and> cyclesOK s' t)"

text \<open>
  A cycle of the graph among the vertices \<open>vs\<close>: a closed walk along edges through at least
  three vertices, none of them met twice. \<open>closedSimple\<close> says that the adjacency sets of
  \<open>vs\<close> stay inside \<open>vs\<close>, list no vertex twice and hold no loop at a vertex.
\<close>

definition hasCycle :: "VertexStore \<Rightarrow> nat list \<Rightarrow> bool" where
  "hasCycle s vs =
     (\<exists>walk. 4 \<le> length walk \<and> hd walk = last walk \<and> distinct (butlast walk) \<and>
             set walk \<subseteq> set vs \<and>
             (\<forall>i. i + 1 < length walk \<longrightarrow> walk ! (i + 1) \<in> set (adjacent (s ! (walk ! i)))))"

definition closedSimple :: "VertexStore \<Rightarrow> nat list \<Rightarrow> bool" where
  "closedSimple s vs =
     list_all (\<lambda>v. set (adjacent (s ! v)) \<subseteq> set vs \<and> distinct (adjacent (s ! v)) \<and>
                   v \<notin> set (adjacent (s ! v))) vs"



section \<open>Validator: order of the checks\<close>

lemma find_upt_Cons: "i < n \<Longrightarrow> find P [i..<n] = (if P i then Some i else find P [Suc i..<n])"
  by (simp add: upt_conv_Cons)

lemma validatePositions_scan:
  assumes "set keys = set (take i ps)" "i \<le> length ps"
  shows "validatePositions keys (drop i ps) =
     (case find (badPositionAt ps) [i..<length ps] of
        Some j \<Rightarrow> Some (if ps ! j \<in> set (take j ps)
                         then VERTICES_HAVE_SAME_POSITION else INVALID_COORDINATE_SYSTEM)
      | None \<Rightarrow> None)"
  using assms
proof (induction "length ps - i" arbitrary: i keys)
  case 0
  then show ?case by simp
next
  case (Suc k)
  then have lt: "i < length ps" by simp
  have d: "drop i ps = ps ! i # drop (Suc i) ps"
    using lt by (simp add: Cons_nth_drop_Suc)
  have keys': "set (ps ! i # keys) = set (take (Suc i) ps)"
    using Suc.prems lt by (simp add: take_Suc_conv_app_nth)
  have IH: "validatePositions (ps ! i # keys) (drop (Suc i) ps) =
     (case find (badPositionAt ps) [Suc i..<length ps] of
        Some j \<Rightarrow> Some (if ps ! j \<in> set (take j ps)
                         then VERTICES_HAVE_SAME_POSITION else INVALID_COORDINATE_SYSTEM)
      | None \<Rightarrow> None)"
    using Suc.hyps(1)[of "Suc i" "ps ! i # keys"] Suc.hyps(2) keys' lt by simp
  show ?case
    unfolding d find_upt_Cons[OF lt]
    using IH Suc.prems(1)
    by (simp add: badPositionAt_def negativePosition_def)
qed

lemma validateEdges_scan:
  assumes "set keys = set (take i es)" "i \<le> length es"
  shows "validateEdges (int (length ps) - 1) keys (drop i es) =
     (case find (badEdgeAt ps es) [i..<length es] of
        Some j \<Rightarrow> Some (if es ! j \<in> set (take j es)
                         then DUPLICATE_EDGE_FOUND else EDGE_ENDPOINT_OUT_OF_BOUNDS)
      | None \<Rightarrow> None)"
  using assms
proof (induction "length es - i" arbitrary: i keys)
  case 0
  then show ?case by simp
next
  case (Suc k)
  then have lt: "i < length es" by simp
  have d: "drop i es = es ! i # drop (Suc i) es"
    using lt by (simp add: Cons_nth_drop_Suc)
  have keys': "set (es ! i # keys) = set (take (Suc i) es)"
    using Suc.prems lt by (simp add: take_Suc_conv_app_nth)
  have IH: "validateEdges (int (length ps) - 1) (es ! i # keys) (drop (Suc i) es) =
     (case find (badEdgeAt ps es) [Suc i..<length es] of
        Some j \<Rightarrow> Some (if es ! j \<in> set (take j es)
                         then DUPLICATE_EDGE_FOUND else EDGE_ENDPOINT_OUT_OF_BOUNDS)
      | None \<Rightarrow> None)"
    using Suc.hyps(1)[of "Suc i" "es ! i # keys"] Suc.hyps(2) keys' lt by simp
  show ?case
    unfolding d find_upt_Cons[OF lt]
    using IH Suc.prems(1)
    by (simp add: badEdgeAt_def outOfBounds_def)
qed

lemma validateInputs_scanOrder: "validateInputs ps es = scanOrderError ps es"
  using validatePositions_scan[of "[]" 0 ps] validateEdges_scan[of "[]" 0 es ps]
  by (simp add: validateInputs_def scanOrderError_def split: option.splits)

lemma discover_error_iff:
  "discover fuel store ps es = Returns (ERROR e, s) \<longleftrightarrow> validateInputs ps es = Some e \<and> s = store"
  by (auto simp: discover_def obind_def Let_def split: option.splits outcome.splits prod.splits)

text \<open>
  C3, as the code has it. The error \<open>discover\<close> returns is the one of the first failing
  check along the scan: \<open>GRAPH_EMPTY\<close> when there is no position or no edge; otherwise,
  at the first position that repeats an earlier one or has a negative coordinate,
  \<open>VERTICES_HAVE_SAME_POSITION\<close> in the first case and \<open>INVALID_COORDINATE_SYSTEM\<close> in
  the second; otherwise, at the first edge that repeats an earlier one or has an endpoint
  out of bounds, \<open>DUPLICATE_EDGE_FOUND\<close> in the first case and
  \<open>EDGE_ENDPOINT_OUT_OF_BOUNDS\<close> in the second. The store of the instance is unchanged.
\<close>

theorem validation_first_failing_check:
  "validateInputs ps es = scanOrderError ps es \<and>
   (\<forall>e. scanOrderError ps es = Some e \<longrightarrow> discover fuel store ps es = Returns (ERROR e, store))"
  by (simp add: validateInputs_scanOrder discover_error_iff)

theorem validation_first_failing_check_witness:
  "scanOrderError [(- 1, 0), (5, 5), (5, 5)] [(0, 1)] = Some INVALID_COORDINATE_SYSTEM \<and>
   discover 0 [] [(- 1, 0), (5, 5), (5, 5)] [(0, 1)] = Returns (ERROR INVALID_COORDINATE_SYSTEM, [])"
proof -
  have s: "scanOrderError [(- 1, 0), (5, 5), (5, 5)] [(0, 1)] = Some INVALID_COORDINATE_SYSTEM"
    by (simp add: scanOrderError_def badPositionAt_def negativePosition_def upt_conv_Cons)
  with validation_first_failing_check[of "[(- 1, 0), (5, 5), (5, 5)]" "[(0, 1)]" 0 "[]"]
  show ?thesis by simp
qed

text \<open>
  C3 as stated fails: with the positions \<open>(-1, 0), (5, 5), (5, 5)\<close> both a negative
  coordinate and a repeated position are present, the precedence names
  \<open>VERTICES_HAVE_SAME_POSITION\<close>, and \<open>discover\<close> returns \<open>INVALID_COORDINATE_SYSTEM\<close>,
  found at index 0 before the repetition at index 2.
\<close>

theorem precedence_counterexample:
  "precedenceError [(- 1, 0), (5, 5), (5, 5)] [(0, 1)] = Some VERTICES_HAVE_SAME_POSITION \<and>
   discover 0 [] [(- 1, 0), (5, 5), (5, 5)] [(0, 1)] = Returns (ERROR INVALID_COORDINATE_SYSTEM, [])"
  by (simp add: precedenceError_def discover_def validateInputs_def)

section \<open>Validator: reversed pairs\<close>

lemma validateEdges_distinct:
  "distinct (keys @ es) \<Longrightarrow> validateEdges m keys es \<noteq> Some DUPLICATE_EDGE_FOUND"
proof (induction es arbitrary: keys)
  case Nil
  then show ?case by simp
next
  case (Cons e es)
  from Cons.prems have "distinct ((e # keys) @ es)" by auto
  from Cons.IH[OF this] Cons.prems show ?case by auto
qed

lemma validatePositions_not_edge_error:
  "validatePositions keys ps \<noteq> Some DUPLICATE_EDGE_FOUND"
  by (induction ps arbitrary: keys) auto

text \<open>
  C7. When no ordered endpoint pair appears twice in the edge list, the validator does
  not answer \<open>DUPLICATE_EDGE_FOUND\<close>, and neither does \<open>discover\<close>; a list that holds
  \<open>(a, b)\<close> and \<open>(b, a)\<close> is such a list, the two pairs being different keys.
\<close>

theorem reversed_pairs_not_duplicates:
  assumes "distinct es"
  shows "validateInputs ps es \<noteq> Some DUPLICATE_EDGE_FOUND \<and>
         discover fuel store ps es \<noteq> Returns (ERROR DUPLICATE_EDGE_FOUND, store)"
proof -
  have "validateInputs ps es \<noteq> Some DUPLICATE_EDGE_FOUND"
    using validateEdges_distinct[of "[]" es] assms validatePositions_not_edge_error
    by (auto simp: validateInputs_def split: option.splits)
  then show ?thesis by (simp add: discover_error_iff)
qed

theorem reversed_pairs_not_duplicates_witness:
  "distinct [(0, 1), (1, 0 :: int)] \<and>
   validateInputs [(0, 0), (1, 0)] [(0, 1), (1, 0)] \<noteq> Some DUPLICATE_EDGE_FOUND \<and>
   discover 0 [] [(0, 0), (1, 0)] [(0, 1), (1, 0)] \<noteq> Returns (ERROR DUPLICATE_EDGE_FOUND, [])"
  using reversed_pairs_not_duplicates[of "[(0, 1), (1, 0)]" "[(0, 0), (1, 0)]" 0 "[]"] by simp

section \<open>Geometry kernel: winding order\<close>








section \<open>Geometry kernel: polygon area\<close>

lemma definedPoints_map_Some: "definedPoints (map Some ps) = Some ps"
  by (induction ps) simp_all

lemma getPointPath_valid:
  assumes "validIndices nodes (butlast es)"
  shows "getPointPath nodes es = map Some (map (\<lambda>p. nodes ! nat p) (butlast es))"
  using assms
  by (auto simp: getPointPath_def validIndices_def butlast_conv_take nodeAt_def list_all_iff)









section \<open>Nesting builder: areas without children\<close>

declare traverseAreas.simps [simp del]


lemma pushChild_kind:
  "is_ROOT (pushChild parent c a) = is_ROOT parent"
  "\<not> is_ROOT parent \<Longrightarrow> total (pushChild parent c a) = total parent"
  by (cases parent; simp add: pushChild_def)+








section \<open>Graph model: operations on the store\<close>

lemma length_deleteAdjacent [simp]: "length (deleteAdjacent s u v) = length s"
  by (simp add: deleteAdjacent_def)

lemma length_addAdjacent [simp]: "length (addAdjacent s u v) = length s"
  by (simp add: addAdjacent_def)

lemma length_setVisited [simp]: "length (setVisited s v n) = length s"
  by (simp add: setVisited_def)

lemma name_deleteAdjacent [simp]: "name (deleteAdjacent s u v ! i) = name (s ! i)"
  by (cases "u < length s"; cases "i = u") (simp_all add: deleteAdjacent_def list_update_beyond)

lemma name_addAdjacent [simp]: "name (addAdjacent s u v ! i) = name (s ! i)"
  by (cases "u < length s"; cases "i = u") (simp_all add: addAdjacent_def list_update_beyond)

lemma name_setVisited [simp]: "name (setVisited s v n ! i) = name (s ! i)"
  by (cases "v < length s"; cases "i = v") (simp_all add: setVisited_def list_update_beyond)

lemma adjacent_setVisited [simp]: "adjacent (setVisited s v n ! i) = adjacent (s ! i)"
  by (cases "v < length s"; cases "i = v") (simp_all add: setVisited_def list_update_beyond)

lemma adjacent_deleteAdjacent:
  "adjacent (deleteAdjacent s u v ! i) =
     (if i = u \<and> u < length s then removeAll v (adjacent (s ! u)) else adjacent (s ! i))"
  by (cases "u < length s"; cases "i = u") (simp_all add: deleteAdjacent_def setDelete_def list_update_beyond)

lemma adjacent_addAdjacent:
  "adjacent (addAdjacent s u v ! i) =
     (if i = u \<and> u < length s then setAdd (adjacent (s ! u)) v else adjacent (s ! i))"
  by (cases "u < length s"; cases "i = u") (simp_all add: addAdjacent_def list_update_beyond)

lemma set_setAdd [simp]: "set (setAdd xs v) = insert v (set xs)"
  by (auto simp: setAdd_def)

lemma symAdjD:
  assumes "symAdj s" "u < length s" "v \<in> set (adjacent (s ! u))"
  shows "v < length s" "u \<in> set (adjacent (s ! v))"
  using assms unfolding symAdj_def by blast+

lemma set_adjacent_removeEdge:
  assumes "i < length s"
  shows "set (adjacent (deleteAdjacent (deleteAdjacent s u v) v u ! i)) =
           set (adjacent (s ! i)) - {w. (i = u \<and> w = v) \<or> (i = v \<and> w = u)}"
  using assms by (auto simp: adjacent_deleteAdjacent)

lemma symAdj_removeEdge:
  assumes "symAdj s"
  shows "symAdj (deleteAdjacent (deleteAdjacent s u v) v u)"
  unfolding symAdj_def
proof (intro allI impI ballI)
  fix i w
  let ?s2 = "deleteAdjacent (deleteAdjacent s u v) v u"
  assume i: "i < length ?s2" and w: "w \<in> set (adjacent (?s2 ! i))"
  from i have i': "i < length s" by simp
  from w have w1: "w \<in> set (adjacent (s ! i))" and
    ne: "\<not> ((i = u \<and> w = v) \<or> (i = v \<and> w = u))"
    by (simp_all add: set_adjacent_removeEdge[OF i'])
  from symAdjD[OF assms i' w1] have w': "w < length s" and bk: "i \<in> set (adjacent (s ! w))"
    by blast+
  from bk ne have "i \<in> set (adjacent (?s2 ! w))"
    by (simp add: set_adjacent_removeEdge[OF w']) blast
  with w' show "w < length ?s2 \<and> i \<in> set (adjacent (?s2 ! w))" by simp
qed

lemma set_adjacent_addEdge:
  assumes "i < length s"
  shows "set (adjacent (addAdjacent (addAdjacent s u v) v u ! i)) =
           set (adjacent (s ! i)) \<union> {w. (i = u \<and> w = v) \<or> (i = v \<and> w = u)}"
  using assms by (auto simp: adjacent_addAdjacent)

lemma symAdj_addEdge:
  assumes "symAdj s" "u < length s" "v < length s"
  shows "symAdj (addAdjacent (addAdjacent s u v) v u)"
  unfolding symAdj_def
proof (intro allI impI ballI)
  fix i w
  let ?s2 = "addAdjacent (addAdjacent s u v) v u"
  assume i: "i < length ?s2" and w: "w \<in> set (adjacent (?s2 ! i))"
  from i have i': "i < length s" by simp
  from w have "w \<in> set (adjacent (s ! i)) \<or> (i = u \<and> w = v) \<or> (i = v \<and> w = u)"
    by (simp add: set_adjacent_addEdge[OF i'])
  then show "w < length ?s2 \<and> i \<in> set (adjacent (?s2 ! w))"
  proof (elim disjE)
    assume w1: "w \<in> set (adjacent (s ! i))"
    from symAdjD[OF assms(1) i' w1] have w': "w < length s" and bk: "i \<in> set (adjacent (s ! w))"
      by blast+
    then show ?thesis by (simp add: set_adjacent_addEdge[OF w'])
  next
    assume "i = u \<and> w = v"
    then show ?thesis using assms(2,3) by (simp add: set_adjacent_addEdge)
  next
    assume "i = v \<and> w = u"
    then show ?thesis using assms(2,3) by (simp add: set_adjacent_addEdge)
  qed
qed

lemma symAdj_moveEdge:
  assumes "symAdj s" "clone < length s" "vertex < length s"
  shows "symAdj (moveEdge original clone s vertex)"
  unfolding moveEdge_def
  by (intro symAdj_addEdge symAdj_removeEdge) (use assms in simp_all)

lemma length_moveEdge [simp]: "length (moveEdge original clone s vertex) = length s"
  by (simp add: moveEdge_def)

lemma name_moveEdge [simp]: "name (moveEdge original clone s vertex ! i) = name (s ! i)"
  by (simp add: moveEdge_def)

lemma length_foldl_moveEdge [simp]: "length (foldl (moveEdge original clone) s vs) = length s"
  by (induction vs arbitrary: s) simp_all

lemma name_foldl_moveEdge [simp]: "name (foldl (moveEdge original clone) s vs ! i) = name (s ! i)"
  by (induction vs arbitrary: s) simp_all

lemma symAdj_foldl_moveEdge:
  assumes "symAdj s" "clone < length s" "list_all (\<lambda>v. v < length s) vs"
  shows "symAdj (foldl (moveEdge original clone) s vs)"
  using assms
proof (induction vs arbitrary: s)
  case Nil
  then show ?case by simp
next
  case (Cons v vs)
  have "symAdj (moveEdge original clone s v)"
    using Cons.prems by (intro symAdj_moveEdge) simp_all
  moreover have "clone < length (moveEdge original clone s v)"
    using Cons.prems by simp
  moreover have "list_all (\<lambda>v'. v' < length (moveEdge original clone s v)) vs"
    using Cons.prems by simp
  ultimately have "symAdj (foldl (moveEdge original clone) (moveEdge original clone s v) vs)"
    by (rule Cons.IH)
  then show ?case by simp
qed

lemma adjacent_moveEdge_other:
  assumes "i \<noteq> original" "i \<noteq> clone" "i \<noteq> vertex"
  shows "adjacent (moveEdge original clone s vertex ! i) = adjacent (s ! i)"
  using assms by (simp add: moveEdge_def adjacent_addAdjacent adjacent_deleteAdjacent)

lemma adjacent_moveEdge_original:
  assumes "original \<noteq> clone" "adjacent (s ! original) = []"
  shows "adjacent (moveEdge original clone s vertex ! original) = [] \<or> original = vertex"
  using assms by (auto simp: moveEdge_def adjacent_addAdjacent adjacent_deleteAdjacent)

lemma empties_foldl_moveEdge:
  assumes "i \<noteq> clone" "i \<notin> set vs" "adjacent (s ! i) = []"
  shows "adjacent (foldl (moveEdge original clone) s vs ! i) = []"
  using assms
proof (induction vs arbitrary: s)
  case Nil
  then show ?case by simp
next
  case (Cons v vs)
  have "adjacent (moveEdge original clone s v ! i) = []"
    using Cons.prems
    by (auto simp: moveEdge_def adjacent_addAdjacent adjacent_deleteAdjacent)
  with Cons show ?case by simp
qed

lemma symAdj_append_empty:
  assumes "symAdj s" "adjacent c = []"
  shows "symAdj (s @ [c])"
  unfolding symAdj_def
proof (intro allI impI ballI)
  fix u v
  assume u: "u < length (s @ [c])" and v: "v \<in> set (adjacent ((s @ [c]) ! u))"
  from v assms(2) have u': "u < length s"
    using u by (cases "u = length s") (simp_all add: nth_append)
  with v have "v \<in> set (adjacent (s ! u))" by (simp add: nth_append)
  from symAdjD[OF assms(1) u' this] u'
  show "v < length (s @ [c]) \<and> u \<in> set (adjacent ((s @ [c]) ! v))"
    by (simp add: nth_append)
qed

lemma detachToClone_props:
  assumes "symAdj s" "original < length s" "set vs \<subseteq> set (adjacent (s ! original))"
      and "detachToClone s original vs = (s', clone)"
  shows "symAdj s'" "evolves s s'" "clone = length s" "length s' = Suc (length s)"
        "name (s' ! clone) = name (s ! original)"
proof -
  let ?c = "\<lparr>name = name (s ! original), position = position (s ! original), visited = 0, adjacent = []\<rparr>"
  from assms(4) have s': "s' = foldl (moveEdge original (length s)) (s @ [?c]) vs"
    and c: "clone = length s"
    by (auto simp: detachToClone_def Let_def)
  show "clone = length s" by (rule c)
  show len: "length s' = Suc (length s)" by (simp add: s')
  have vs: "\<And>v. v \<in> set vs \<Longrightarrow> v < length s \<and> original \<in> set (adjacent (s ! v))"
    using symAdjD[OF assms(1,2)] assms(3) by blast
  have "list_all (\<lambda>v. v < length (s @ [?c])) vs"
    using vs by (auto simp: list_all_iff less_SucI)
  then show "symAdj s'"
    unfolding s'
    by (intro symAdj_foldl_moveEdge symAdj_append_empty assms(1)) simp_all
  show "name (s' ! clone) = name (s ! original)"
    by (simp add: s' c)
  show "evolves s s'"
    unfolding evolves_def
  proof (intro conjI allI impI)
    show "length s \<le> length s'" using len by simp
  next
    fix i assume i: "i < length s"
    show "name (s' ! i) = name (s ! i)"
      using i by (simp add: s' nth_append)
  next
    fix i assume "length s \<le> i \<and> i < length s'"
    with len have "i = length s" by simp
    then have "name (s' ! i) = name (s ! original)" by (simp add: s')
    with assms(2) show "\<exists>j < length s. name (s' ! i) = name (s ! j)" by blast
  next
    fix i assume i: "i < length s" and e: "adjacent (s ! i) = []"
    have "i \<notin> set vs" using vs e by fastforce
    then show "adjacent (s' ! i) = []"
      unfolding s' using i e
      by (intro empties_foldl_moveEdge) (simp_all add: nth_append)
  qed
qed

lemma evolves_refl: "evolves s s"
  by (simp add: evolves_def)

lemma evolves_new:
  assumes "evolves s s'" "length s \<le> i" "i < length s'"
  shows "\<exists>j < length s. name (s' ! i) = name (s ! j)"
  using assms unfolding evolves_def by blast

lemma evolves_trans:
  assumes "evolves s s1" "evolves s1 s2"
  shows "evolves s s2"
  unfolding evolves_def
proof (intro conjI allI impI)
  show "length s \<le> length s2"
    using assms by (simp add: evolves_def)
next
  fix i assume i: "i < length s"
  then have i1: "i < length s1" using assms(1) by (simp add: evolves_def)
  show "name (s2 ! i) = name (s ! i)"
    using assms i i1 by (simp add: evolves_def)
next
  fix i assume i: "i < length s" and e: "adjacent (s ! i) = []"
  then have i1: "i < length s1" using assms(1) by (simp add: evolves_def)
  have "adjacent (s1 ! i) = []" using assms(1) i e by (simp add: evolves_def)
  then show "adjacent (s2 ! i) = []" using assms(2) i1 by (simp add: evolves_def)
next
  fix i assume i: "length s \<le> i \<and> i < length s2"
  have old1: "\<exists>j < length s. name (s1 ! k) = name (s ! j)" if "k < length s1" for k
  proof (cases "k < length s")
    case True
    with assms(1) have "name (s1 ! k) = name (s ! k)" by (simp add: evolves_def)
    with True show ?thesis by blast
  next
    case False
    with that evolves_new[OF assms(1), of k] show ?thesis by simp
  qed
  show "\<exists>j < length s. name (s2 ! i) = name (s ! j)"
  proof (cases "i < length s1")
    case True
    with assms(2) have "name (s2 ! i) = name (s1 ! i)" by (simp add: evolves_def)
    with old1[OF True] show ?thesis by simp
  next
    case False
    with i evolves_new[OF assms(2), of i] obtain k where "k < length s1" "name (s2 ! i) = name (s1 ! k)"
      by auto
    with old1[of k] show ?thesis by simp
  qed
qed

lemma evolves_deleteAdjacent: "evolves s (deleteAdjacent s u v)"
  by (simp add: evolves_def adjacent_deleteAdjacent)

lemma evolves_setVisited: "evolves s (setVisited s v n)"
  by (simp add: evolves_def)

lemma newEmpty_same_length: "length s' = length s \<Longrightarrow> newEmpty s s'"
  by (auto simp: newEmpty_def)

lemma newEmpty_trans:
  assumes "newEmpty s s1" "evolves s1 s2" "newEmpty s1 s2"
  shows "newEmpty s s2"
  unfolding newEmpty_def
proof (intro allI impI)
  fix i assume i: "length s \<le> i \<and> i < length s2"
  show "adjacent (s2 ! i) = []"
  proof (cases "i < length s1")
    case True
    with assms(1) i have "adjacent (s1 ! i) = []" by (simp add: newEmpty_def)
    with assms(2) True show ?thesis by (simp add: evolves_def)
  next
    case False
    with assms(3) i show ?thesis by (simp add: newEmpty_def)
  qed
qed

lemma recordCycle_evolves:
  assumes "recordCycle s c" "evolves s s'"
  shows "recordCycle s' c"
proof -
  from assms(1) obtain walk where w: "c = map (\<lambda>v. name (s ! v)) walk" "4 \<le> length walk"
      "hd walk = last walk" "distinct (butlast walk)" "list_all (\<lambda>v. v < length s) walk"
    unfolding recordCycle_def by blast
  have "map (\<lambda>v. name (s ! v)) walk = map (\<lambda>v. name (s' ! v)) walk"
    using w(5) assms(2) by (auto simp: list_all_iff evolves_def)
  moreover have "list_all (\<lambda>v. v < length s') walk"
    using w(5) assms(2) by (auto simp: list_all_iff evolves_def)
  ultimately show ?thesis
    unfolding recordCycle_def using w by (intro exI[of _ walk]) simp
qed

lemma cyclesOK_evolves: "cyclesOK s t \<Longrightarrow> evolves s s' \<Longrightarrow> cyclesOK s' t"
  unfolding cyclesOK_def list_all_iff using recordCycle_evolves by blast

section \<open>Connected components: depth-first search\<close>

lemma symAdj_same_adjacent:
  assumes "symAdj s" "length s' = length s" "\<And>i. adjacent (s' ! i) = adjacent (s ! i)"
  shows "symAdj s'"
  unfolding symAdj_def
proof (intro allI impI ballI)
  fix u v assume "u < length s'" "v \<in> set (adjacent (s' ! u))"
  then have "u < length s" "v \<in> set (adjacent (s ! u))" using assms(2,3) by simp_all
  from symAdjD[OF assms(1) this] show "v < length s' \<and> u \<in> set (adjacent (s' ! v))"
    using assms(2,3) by simp
qed

lemma evolves_same_adjacent:
  assumes "length s' = length s" "\<And>i. adjacent (s' ! i) = adjacent (s ! i)"
          "\<And>i. name (s' ! i) = name (s ! i)"
  shows "evolves s s'"
  using assms by (simp add: evolves_def)

lemma inStore_Cons [simp]: "inStore s (v # vs) \<longleftrightarrow> v < length s \<and> inStore s vs"
  by (simp add: inStore_def)

lemma inStore_Nil [simp]: "inStore s []"
  by (simp add: inStore_def)

lemma inStore_append [simp]: "inStore s (xs @ ys) \<longleftrightarrow> inStore s xs \<and> inStore s ys"
  by (simp add: inStore_def)

lemma inStore_length: "length s' = length s \<Longrightarrow> inStore s' vs = inStore s vs"
  by (simp add: inStore_def)

lemma inStore_setVisited [simp]: "inStore (setVisited s v n) vs = inStore s vs"
  by (simp add: inStore_def)

lemma inStore_deleteAdjacent [simp]: "inStore (deleteAdjacent s u v) vs = inStore s vs"
  by (simp add: inStore_def)

lemma inStore_addAdjacent [simp]: "inStore (addAdjacent s u v) vs = inStore s vs"
  by (simp add: inStore_def)

lemma inStore_mono: "inStore s vs \<Longrightarrow> length s \<le> length s' \<Longrightarrow> inStore s' vs"
  by (auto simp: inStore_def list_all_iff)

lemma inStore_mem: "inStore s vs \<Longrightarrow> v \<in> set vs \<Longrightarrow> v < length s"
  by (simp add: inStore_def list_all_iff)

lemma inStore_filter: "inStore s vs \<Longrightarrow> inStore s (filter P vs)"
  by (simp add: inStore_def list_all_iff)

lemma dfsLoop_same:
  assumes "dfsLoop fuel s vStack component = Returns (s', component')"
  shows "length s' = length s \<and> (\<forall>i. name (s' ! i) = name (s ! i)) \<and>
         (\<forall>i. adjacent (s' ! i) = adjacent (s ! i)) \<and> set vStack \<union> set component \<subseteq> set component'"
  using assms
proof (induction fuel arbitrary: s vStack component)
  case 0
  then show ?case by simp
next
  case (Suc fuel)
  show ?case
  proof (cases vStack)
    case Nil
    with Suc.prems show ?thesis by simp
  next
    case (Cons vertex rest)
    let ?s1 = "setVisited s vertex 1"
    show ?thesis
    proof (cases "find (\<lambda>a. visited (?s1 ! a) = 0) (adjacent (?s1 ! vertex))")
      case None
      with Suc.prems Cons have
        "dfsLoop fuel (setVisited ?s1 vertex 2) rest (component @ [vertex]) = Returns (s', component')"
        by (simp add: Let_def)
      from Suc.IH[OF this] Cons show ?thesis by simp
    next
      case (Some a)
      with Suc.prems Cons have "dfsLoop fuel ?s1 (a # vertex # rest) component = Returns (s', component')"
        by (simp add: Let_def)
      from Suc.IH[OF this] Cons show ?thesis by simp
    qed
  qed
qed

lemma dfsLoop_inStore:
  assumes "dfsLoop fuel s vStack component = Returns (s', component')"
      and "symAdj s" "inStore s vStack" "inStore s component"
  shows "inStore s' component'"
  using assms
proof (induction fuel arbitrary: s vStack component)
  case 0
  then show ?case by simp
next
  case (Suc fuel)
  show ?case
  proof (cases vStack)
    case Nil
    with Suc.prems show ?thesis by simp
  next
    case (Cons vertex rest)
    let ?s1 = "setVisited s vertex 1"
    have sym1: "symAdj ?s1"
      by (rule symAdj_same_adjacent[OF Suc.prems(2)]) simp_all
    show ?thesis
    proof (cases "find (\<lambda>a. visited (?s1 ! a) = 0) (adjacent (?s1 ! vertex))")
      case None
      with Suc.prems Cons have
        r: "dfsLoop fuel (setVisited ?s1 vertex 2) rest (component @ [vertex]) = Returns (s', component')"
        by (simp add: Let_def)
      have "symAdj (setVisited ?s1 vertex 2)"
        by (rule symAdj_same_adjacent[OF sym1]) simp_all
      from Suc.IH[OF r this] Suc.prems Cons show ?thesis
        by simp
    next
      case (Some a)
      with Suc.prems Cons have r: "dfsLoop fuel ?s1 (a # vertex # rest) component = Returns (s', component')"
        by (simp add: Let_def)
      from Some have "a \<in> set (adjacent (s ! vertex))"
        by (auto simp: find_Some_iff)
      moreover have "vertex < length s" using Suc.prems(3) Cons by simp
      ultimately have "a < length s" using symAdjD(1)[OF Suc.prems(2)] by blast
      with Suc.IH[OF r sym1] Suc.prems Cons show ?thesis
        by simp
    qed
  qed
qed

lemma dfsLoop_visited:
  assumes "dfsLoop fuel s vStack component = Returns (s', component')"
      and "v < length s" "visited (s' ! v) \<noteq> 0"
  shows "visited (s ! v) \<noteq> 0 \<or> v \<in> set component'"
  using assms
proof (induction fuel arbitrary: s vStack component)
  case 0
  then show ?case by simp
next
  case (Suc fuel)
  show ?case
  proof (cases vStack)
    case Nil
    with Suc.prems show ?thesis by simp
  next
    case (Cons vertex rest)
    let ?s1 = "setVisited s vertex 1"
    have vis1: "visited (?s1 ! v) \<noteq> 0 \<Longrightarrow> visited (s ! v) \<noteq> 0 \<or> v = vertex"
      by (cases "v = vertex") (simp_all add: setVisited_def)
    have vis2: "visited (setVisited ?s1 vertex 2 ! v) \<noteq> 0 \<Longrightarrow> visited (s ! v) \<noteq> 0 \<or> v = vertex"
      by (cases "v = vertex") (simp_all add: setVisited_def)
    have inc: "vertex \<in> set component'"
      using dfsLoop_same[OF Suc.prems(1)] Cons by auto
    show ?thesis
    proof (cases "find (\<lambda>a. visited (?s1 ! a) = 0) (adjacent (?s1 ! vertex))")
      case None
      with Suc.prems Cons have
        r: "dfsLoop fuel (setVisited ?s1 vertex 2) rest (component @ [vertex]) = Returns (s', component')"
        by (simp add: Let_def)
      from Suc.IH[OF r] Suc.prems(2,3) vis2 inc show ?thesis by auto
    next
      case (Some a)
      with Suc.prems Cons have r: "dfsLoop fuel ?s1 (a # vertex # rest) component = Returns (s', component')"
        by (simp add: Let_def)
      from Suc.IH[OF r] Suc.prems(2,3) vis1 inc show ?thesis by auto
    qed
  qed
qed

lemma depthFirstSearch_props:
  assumes "depthFirstSearch fuel s v = Returns (s', component)" "symAdj s" "v < length s"
  shows "symAdj s'" "evolves s s'" "length s' = length s" "inStore s' component" "v \<in> set component"
        "\<And>i. adjacent (s' ! i) = adjacent (s ! i)"
proof -
  from assms(1) have d: "dfsLoop fuel s [v] [] = Returns (s', component)"
    by (simp add: depthFirstSearch_def)
  note same = dfsLoop_same[OF d]
  show "length s' = length s" using same by simp
  show "\<And>i. adjacent (s' ! i) = adjacent (s ! i)" using same by simp
  show "symAdj s'" by (rule symAdj_same_adjacent[OF assms(2)]) (use same in simp_all)
  show "evolves s s'" by (rule evolves_same_adjacent) (use same in simp_all)
  show "inStore s' component" by (rule dfsLoop_inStore[OF d assms(2)]) (use assms(3) in simp_all)
  show "v \<in> set component" using same by simp
qed

section \<open>Filament pruner\<close>

lemma adjacent_removeEdge_nth:
  "adjacent (deleteAdjacent (deleteAdjacent s u v) v u ! i) =
     (if i < length s \<and> i = u then removeAll v (adjacent (s ! i))
      else if i < length s \<and> i = v then removeAll u (adjacent (s ! i))
      else adjacent (s ! i))"
  by (auto simp: adjacent_deleteAdjacent)

lemma evolves_removeEdge: "evolves s (deleteAdjacent (deleteAdjacent s u v) v u)"
  by (rule evolves_trans[OF evolves_deleteAdjacent evolves_deleteAdjacent])

lemma length_one_removeAll:
  assumes "length xs = 1" "xs ! 0 = a"
  shows "removeAll a xs = []"
  using assms by (cases xs) auto

text \<open>One step of a filament walk.\<close>

lemma filament_step:
  assumes "vertex < length s" "length (adjacent (s ! vertex)) = 1" "a = adjacent (s ! vertex) ! 0"
      and "s2 = deleteAdjacent (deleteAdjacent s a vertex) vertex a"
  shows "adjacent (s2 ! vertex) = []"
    and "\<And>i. i \<noteq> vertex \<Longrightarrow> i \<noteq> a \<Longrightarrow> adjacent (s2 ! i) = adjacent (s ! i)"
proof -
  have e: "removeAll a (adjacent (s ! vertex)) = []"
    using assms(2,3) by (simp add: length_one_removeAll)
  show "adjacent (s2 ! vertex) = []"
  proof (cases "vertex = a")
    case True
    with e assms(1) show ?thesis by (simp add: assms(4) adjacent_removeEdge_nth)
  next
    case False
    with e assms(1) show ?thesis by (simp add: assms(4) adjacent_removeEdge_nth)
  qed
  show "\<And>i. i \<noteq> vertex \<Longrightarrow> i \<noteq> a \<Longrightarrow> adjacent (s2 ! i) = adjacent (s ! i)"
    by (simp add: assms(4) adjacent_removeEdge_nth)
qed

lemma filamentWalk_props:
  assumes "filamentWalk fuel s vertex = Returns s'" "symAdj s" "vertex < length s"
  shows "symAdj s' \<and> evolves s s' \<and> length s' = length s \<and>
         (\<forall>i < length s. length (adjacent (s' ! i)) = 1 \<longrightarrow>
             length (adjacent (s ! i)) = 1 \<and> i \<noteq> vertex)"
  using assms
proof (induction fuel arbitrary: s vertex)
  case 0
  then show ?case by simp
next
  case (Suc fuel)
  show ?case
  proof (cases "length (adjacent (s ! vertex)) = 1")
    case False
    with Suc.prems have "s' = s" by simp
    with Suc.prems False show ?thesis by (auto simp: evolves_refl)
  next
    case True
    define a where "a = adjacent (s ! vertex) ! 0"
    define s2 where "s2 = deleteAdjacent (deleteAdjacent s a vertex) vertex a"
    from True Suc.prems(1) have r: "filamentWalk fuel s2 a = Returns s'"
      by (simp add: Let_def a_def s2_def)
    have "a \<in> set (adjacent (s ! vertex))"
      using True by (simp add: a_def)
    from symAdjD(1)[OF Suc.prems(2,3) this] have a: "a < length s" .
    have sym2: "symAdj s2"
      unfolding s2_def by (rule symAdj_removeEdge[OF Suc.prems(2)])
    have len2: "length s2 = length s" by (simp add: s2_def)
    from Suc.IH[OF r sym2] a len2 have
      IH: "symAdj s'" "evolves s2 s'" "length s' = length s"
          "\<And>i. i < length s \<Longrightarrow> length (adjacent (s' ! i)) = 1 \<Longrightarrow>
                length (adjacent (s2 ! i)) = 1 \<and> i \<noteq> a"
      by simp_all
    note step = filament_step[OF Suc.prems(3) True a_def s2_def]
    have ev: "evolves s s'"
      by (rule evolves_trans[OF _ IH(2)]) (simp add: s2_def evolves_removeEdge)
    have "length (adjacent (s ! i)) = 1 \<and> i \<noteq> vertex"
      if i: "i < length s" and one: "length (adjacent (s' ! i)) = 1" for i
    proof -
      from IH(4)[OF i one] have one2: "length (adjacent (s2 ! i)) = 1" and ia: "i \<noteq> a" by simp_all
      from one2 step(1) have "i \<noteq> vertex" by auto
      with step(2)[OF this ia] one2 show ?thesis by simp
    qed
    with IH(1,3) ev show ?thesis by blast
  qed
qed

lemma pruneEndpoints_props:
  assumes "pruneEndpoints fuel s endpoints = Returns s'" "symAdj s" "inStore s endpoints"
  shows "symAdj s' \<and> evolves s s' \<and> length s' = length s \<and>
         (\<forall>i < length s. length (adjacent (s' ! i)) = 1 \<longrightarrow>
             length (adjacent (s ! i)) = 1 \<and> i \<notin> set endpoints)"
  using assms
proof (induction endpoints arbitrary: s)
  case Nil
  then show ?case by (simp add: evolves_refl)
next
  case (Cons v endpoints)
  show ?case
  proof (cases "length (adjacent (s ! v)) = 1")
    case False
    with Cons.prems have r: "pruneEndpoints fuel s endpoints = Returns s'" by simp
    from Cons.IH[OF r Cons.prems(2)] Cons.prems(3) False show ?thesis by auto
  next
    case True
    with Cons.prems(1) obtain s1 where w: "filamentWalk fuel s v = Returns s1"
      and r: "pruneEndpoints fuel s1 endpoints = Returns s'"
      by (auto simp: obind_def split: outcome.splits)
    from Cons.prems(3) have v: "v < length s" by simp
    from filamentWalk_props[OF w Cons.prems(2) v] have
      W: "symAdj s1" "evolves s s1" "length s1 = length s"
         "\<And>i. i < length s \<Longrightarrow> length (adjacent (s1 ! i)) = 1 \<Longrightarrow>
               length (adjacent (s ! i)) = 1 \<and> i \<noteq> v"
      by simp_all
    have "inStore s1 endpoints"
      using Cons.prems(3) W(3) by (simp add: inStore_def)
    from Cons.IH[OF r W(1) this] W(3) have
      IH: "symAdj s'" "evolves s1 s'" "length s' = length s"
          "\<And>i. i < length s \<Longrightarrow> length (adjacent (s' ! i)) = 1 \<Longrightarrow>
                length (adjacent (s1 ! i)) = 1 \<and> i \<notin> set endpoints"
      by simp_all
    have "length (adjacent (s ! i)) = 1 \<and> i \<notin> set (v # endpoints)"
      if i: "i < length s" and one: "length (adjacent (s' ! i)) = 1" for i
    proof -
      from IH(4)[OF i one] have one1: "length (adjacent (s1 ! i)) = 1" and ne: "i \<notin> set endpoints"
        by simp_all
      from W(4)[OF i one1] ne show ?thesis by simp
    qed
    with IH(1,3) evolves_trans[OF W(2) IH(2)] show ?thesis by blast
  qed
qed

lemma removeFilaments_props:
  assumes "removeFilaments fuel s component = Returns (s', component')"
      and "symAdj s" "inStore s component"
  shows "symAdj s'" "evolves s s'" "length s' = length s" "inStore s' component'"
        "set component' \<subseteq> set component"
        "\<And>v. v \<in> set component \<Longrightarrow> v \<notin> set component' \<Longrightarrow> adjacent (s' ! v) = []"
        "\<And>v. v \<in> set component' \<Longrightarrow> length (adjacent (s' ! v)) \<noteq> 1"
        "list_ex (\<lambda>v. length (adjacent (s ! v)) = 1) component \<Longrightarrow>
           list_all (\<lambda>v. adjacent (s' ! v) \<noteq> []) component'"
        "\<not> list_ex (\<lambda>v. length (adjacent (s ! v)) = 1) component \<Longrightarrow> s' = s \<and> component' = component"
proof -
  let ?ends = "filter (\<lambda>vertex. length (adjacent (s ! vertex)) = 1) component"
  have ends: "inStore s ?ends" by (rule inStore_filter[OF assms(3)])
  have all:
    "symAdj s' \<and> evolves s s' \<and> length s' = length s \<and> inStore s' component' \<and>
     set component' \<subseteq> set component \<and>
     (\<forall>v. v \<in> set component \<longrightarrow> v \<notin> set component' \<longrightarrow> adjacent (s' ! v) = []) \<and>
     (\<forall>v. v \<in> set component' \<longrightarrow> length (adjacent (s' ! v)) \<noteq> 1) \<and>
     (list_ex (\<lambda>v. length (adjacent (s ! v)) = 1) component \<longrightarrow>
           list_all (\<lambda>v. adjacent (s' ! v) \<noteq> []) component') \<and>
     (\<not> list_ex (\<lambda>v. length (adjacent (s ! v)) = 1) component \<longrightarrow> s' = s \<and> component' = component)"
  proof (cases "?ends = []")
    case True
    with assms(1) have eq: "s' = s" "component' = component"
      by (simp_all add: removeFilaments_def Let_def)
    from True have none: "\<And>v. v \<in> set component \<Longrightarrow> length (adjacent (s ! v)) \<noteq> 1"
      by (auto simp: filter_empty_conv)
    then have "\<not> list_ex (\<lambda>v. length (adjacent (s ! v)) = 1) component"
      by (auto simp: list_ex_iff)
    with eq assms(2,3) none show ?thesis by (auto simp: evolves_refl)
  next
    case False
    with assms(1) obtain s1 where p: "pruneEndpoints fuel s ?ends = Returns s1"
      and eq: "s' = s1" "component' = filter (\<lambda>vertex. length (adjacent (s1 ! vertex)) > 0) component"
      by (auto simp: removeFilaments_def Let_def obind_def split: outcome.splits)
    from pruneEndpoints_props[OF p assms(2) ends] have
      P: "symAdj s1" "evolves s s1" "length s1 = length s"
         "\<And>i. i < length s \<Longrightarrow> length (adjacent (s1 ! i)) = 1 \<Longrightarrow>
               length (adjacent (s ! i)) = 1 \<and> i \<notin> set ?ends"
      by blast+
    have no1: "length (adjacent (s1 ! v)) \<noteq> 1" if "v \<in> set component" for v
    proof
      assume one: "length (adjacent (s1 ! v)) = 1"
      from that assms(3) have "v < length s" by (rule inStore_mem[rotated])
      from P(4)[OF this one] that show False by simp
    qed
    have "inStore s' component'"
      using assms(3) P(3) by (simp add: eq inStore_def list_all_iff)
    moreover have "list_ex (\<lambda>v. length (adjacent (s ! v)) = 1) component"
      using False by (auto simp: list_ex_iff filter_empty_conv)
    ultimately show ?thesis
      using P(1,2,3) no1 by (auto simp: eq list_all_iff)
  qed
  then show "symAdj s'" "evolves s s'" "length s' = length s" "inStore s' component'"
        "set component' \<subseteq> set component"
        "\<And>v. v \<in> set component \<Longrightarrow> v \<notin> set component' \<Longrightarrow> adjacent (s' ! v) = []"
        "\<And>v. v \<in> set component' \<Longrightarrow> length (adjacent (s' ! v)) \<noteq> 1"
        "list_ex (\<lambda>v. length (adjacent (s ! v)) = 1) component \<Longrightarrow>
           list_all (\<lambda>v. adjacent (s' ! v) \<noteq> []) component'"
        "\<not> list_ex (\<lambda>v. length (adjacent (s ! v)) = 1) component \<Longrightarrow> s' = s \<and> component' = component"
    by blast+
qed

section \<open>Cycle extractor: unwinding a cycle, building the closed walk\<close>

lemma unwindForward_props:
  assumes "unwindForward fuel s vBranch v1 = Returns (s', v1')" "symAdj s"
  shows "symAdj s' \<and> evolves s s' \<and> length s' = length s"
  using assms
proof (induction fuel arbitrary: s v1)
  case 0
  then show ?case by simp
next
  case (Suc fuel)
  show ?case
  proof (cases "Some v1 \<noteq> vBranch \<and> length (adjacent (s ! v1)) = 1")
    case False
    with Suc.prems show ?thesis by (auto simp: evolves_refl)
  next
    case True
    define a where "a = adjacent (s ! v1) ! 0"
    define s2 where "s2 = deleteAdjacent (deleteAdjacent s v1 a) a v1"
    from True Suc.prems(1) have r: "unwindForward fuel s2 vBranch a = Returns (s', v1')"
      by (simp add: Let_def a_def s2_def)
    have sym2: "symAdj s2"
      unfolding s2_def by (rule symAdj_removeEdge[OF Suc.prems(2)])
    from Suc.IH[OF r sym2] have "symAdj s'" "evolves s2 s'" "length s' = length s"
      by (simp_all add: s2_def)
    moreover have "evolves s s2" by (simp add: s2_def evolves_removeEdge)
    ultimately show ?thesis using evolves_trans by blast
  qed
qed

lemma unwindBackward_props:
  assumes "unwindBackward fuel s vBranch v0 = Returns s'" "symAdj s"
  shows "symAdj s' \<and> evolves s s' \<and> length s' = length s"
  using assms
proof (induction fuel arbitrary: s v0)
  case 0
  then show ?case by simp
next
  case (Suc fuel)
  show ?case
  proof (cases "v0 \<noteq> vBranch \<and> length (adjacent (s ! v0)) = 1")
    case False
    with Suc.prems show ?thesis by (auto simp: evolves_refl)
  next
    case True
    define a where "a = adjacent (s ! v0) ! 0"
    define s2 where "s2 = deleteAdjacent (deleteAdjacent s v0 a) a v0"
    from True Suc.prems(1) have r: "unwindBackward fuel s2 vBranch a = Returns s'"
      by (simp add: Let_def a_def s2_def)
    have sym2: "symAdj s2"
      unfolding s2_def by (rule symAdj_removeEdge[OF Suc.prems(2)])
    from Suc.IH[OF r sym2] have "symAdj s'" "evolves s2 s'" "length s' = length s"
      by (simp_all add: s2_def)
    moreover have "evolves s s2" by (simp add: s2_def evolves_removeEdge)
    ultimately show ?thesis using evolves_trans by blast
  qed
qed

lemma extractCycle_props:
  assumes "extractCycle fuel s closedWalk = Returns (cyc, s')" "symAdj s"
  shows "symAdj s'" "evolves s s'" "length s' = length s"
        "cyc = map (\<lambda>v. name (s ! v)) closedWalk"
proof -
  let ?v0 = "closedWalk ! 0"
  let ?v1 = "closedWalk ! 1"
  let ?s2 = "deleteAdjacent (deleteAdjacent s ?v0 ?v1) ?v1 ?v0"
  let ?vBranch = "if length (adjacent (s ! ?v0)) > 2 then Some ?v0 else None"
  let ?cyc = "map (\<lambda>v. name (s ! v)) closedWalk"
  from assms(1) have len: "\<not> length closedWalk < 2"
    by (auto simp: extractCycle_def)
  from assms(1) len obtain s3 v1' where
    f: "unwindForward fuel ?s2 ?vBranch ?v1 = Returns (s3, v1')" and
    rest: "(if v1' \<noteq> ?v0 then obind (unwindBackward fuel s3 v1' ?v0) (\<lambda>s4. Returns (?cyc, s4))
            else Returns (?cyc, s3)) = Returns (cyc, s')"
    by (auto simp: extractCycle_def Let_def obind_def split: outcome.splits)
  have sym2: "symAdj ?s2" by (rule symAdj_removeEdge[OF assms(2)])
  have ev2: "evolves s ?s2" by (simp add: evolves_removeEdge)
  from unwindForward_props[OF f sym2] have F: "symAdj s3" "evolves ?s2 s3" "length s3 = length s"
    by simp_all
  have all: "symAdj s' \<and> evolves s s' \<and> length s' = length s \<and> cyc = ?cyc"
  proof (cases "v1' \<noteq> ?v0")
    case False
    with rest have "s' = s3" "cyc = ?cyc" by simp_all
    with F ev2 evolves_trans show ?thesis by blast
  next
    case True
    with rest obtain s4 where b: "unwindBackward fuel s3 v1' ?v0 = Returns s4"
      and eq: "s' = s4" "cyc = ?cyc"
      by (auto simp: obind_def split: outcome.splits)
    from unwindBackward_props[OF b F(1)] F(3) have "symAdj s4" "evolves s3 s4" "length s4 = length s"
      by simp_all
    with eq F ev2 evolves_trans show ?thesis by blast
  qed
  then show "symAdj s'" "evolves s s'" "length s' = length s" "cyc = ?cyc"
    by blast+
qed

text \<open>The walker answers with a member of the adjacency of the current vertex.\<close>

lemma cwStep_mem:
  assumes "fst st = None \<or> the (fst st) \<in> A" "a \<in> A"
  shows "fst (cwStep s vPrev vCurr dCurr st a) = None \<or> the (fst (cwStep s vPrev vCurr dCurr st a)) \<in> A"
  using assms by (cases st) (auto simp: cwStep_def Let_def)

lemma ccwStep_mem:
  assumes "fst st = None \<or> the (fst st) \<in> A" "a \<in> A"
  shows "fst (ccwStep s vPrev vCurr dCurr st a) = None \<or> the (fst (ccwStep s vPrev vCurr dCurr st a)) \<in> A"
  using assms by (cases st) (auto simp: ccwStep_def Let_def)

lemma foldl_cwStep_mem:
  assumes "fst st = None \<or> the (fst st) \<in> A" "set xs \<subseteq> A"
  shows "fst (foldl (cwStep s vPrev vCurr dCurr) st xs) = None \<or>
         the (fst (foldl (cwStep s vPrev vCurr dCurr) st xs)) \<in> A"
  using assms
proof (induction xs arbitrary: st)
  case Nil
  then show ?case by simp
next
  case (Cons x xs)
  from Cons.prems have "fst (cwStep s vPrev vCurr dCurr st x) = None \<or>
      the (fst (cwStep s vPrev vCurr dCurr st x)) \<in> A"
    by (intro cwStep_mem) simp_all
  from Cons.IH[OF this] Cons.prems(2) show ?case by simp
qed

lemma foldl_ccwStep_mem:
  assumes "fst st = None \<or> the (fst st) \<in> A" "set xs \<subseteq> A"
  shows "fst (foldl (ccwStep s vPrev vCurr dCurr) st xs) = None \<or>
         the (fst (foldl (ccwStep s vPrev vCurr dCurr) st xs)) \<in> A"
  using assms
proof (induction xs arbitrary: st)
  case Nil
  then show ?case by simp
next
  case (Cons x xs)
  from Cons.prems have "fst (ccwStep s vPrev vCurr dCurr st x) = None \<or>
      the (fst (ccwStep s vPrev vCurr dCurr st x)) \<in> A"
    by (intro ccwStep_mem) simp_all
  from Cons.IH[OF this] Cons.prems(2) show ?case by simp
qed

lemma getClockwiseMost_mem:
  "getClockwiseMost s vPrev vCurr = Some a \<Longrightarrow> a \<in> set (adjacent (s ! vCurr))"
  using foldl_cwStep_mem[of "(None, (0, 0), False)" "set (adjacent (s ! vCurr))" "adjacent (s ! vCurr)"
          s vPrev vCurr "dCurrOf s vPrev vCurr"]
  by (auto simp: getClockwiseMost_def)

lemma getCounterClockwiseMost_mem:
  "getCounterClockwiseMost s vPrev vCurr = Some a \<Longrightarrow> a \<in> set (adjacent (s ! vCurr))"
  using foldl_ccwStep_mem[of "(None, (0, 0), False)" "set (adjacent (s ! vCurr))" "adjacent (s ! vCurr)"
          s vPrev vCurr "dCurrOf s vPrev vCurr"]
  by (auto simp: getCounterClockwiseMost_def)

lemma getClockwiseMost_empty:
  "adjacent (s ! vCurr) = [] \<Longrightarrow> getClockwiseMost s vPrev vCurr = None"
  by (simp add: getClockwiseMost_def)

lemma closedWalkLoop_props:
  assumes "closedWalkLoop fuel s vStart walk vCurr vAdj = Returns W"
      and "symAdj s" "vCurr < length s" "\<And>a. vAdj = Some a \<Longrightarrow> a \<in> set (adjacent (s ! vCurr))"
  shows "\<exists>mid a. W = walk @ mid @ [vStart] \<and> vStart \<notin> set mid \<and> inStore s mid \<and>
           vAdj = Some a \<and> a = hd (mid @ [vStart])"
  using assms
proof (induction fuel arbitrary: walk vCurr vAdj)
  case 0
  then show ?case by simp
next
  case (Suc fuel)
  from Suc.prems(1) obtain a where a: "vAdj = Some a"
    by (cases vAdj) simp_all
  from Suc.prems(4)[OF a] have mem: "a \<in> set (adjacent (s ! vCurr))" .
  from symAdjD(1)[OF Suc.prems(2,3) mem] have alen: "a < length s" .
  show ?case
  proof (cases "a = vStart")
    case True
    with Suc.prems(1) a have "W = walk @ [] @ [vStart]" by simp
    with a True show ?thesis by (intro exI[of _ "[]"] exI[of _ a]) simp
  next
    case False
    with Suc.prems(1) a have
      r: "closedWalkLoop fuel s vStart (walk @ [a]) a (getCounterClockwiseMost s (Some vCurr) a) = Returns W"
      by simp
    from Suc.IH[OF r Suc.prems(2) alen] getCounterClockwiseMost_mem
    obtain mid b where m: "W = (walk @ [a]) @ mid @ [vStart]" "vStart \<notin> set mid" "inStore s mid"
      by blast
    show ?thesis
      using m False alen a
      by (intro exI[of _ "a # mid"] exI[of _ a]) simp
  qed
qed

section \<open>Cycle extractor: cutting self-intersections out of the closed walk\<close>

lemma forgetBetween_dup:
  "fst (forgetBetween w dup det js) v = (if v \<in> (\<lambda>j. w ! j) ` set js then None else dup v)"
  by (induction js arbitrary: dup det) auto

lemma walkInv_miss:
  assumes "walkInv w dup i"
      and "(case dup (w ! i) of None \<Rightarrow> None | Some k \<Rightarrow> if k = 0 then None else Some k) = None"
  shows "walkInv w (dup(w ! i \<mapsto> i)) (i + 1)"
proof -
  from assms(1) have i1: "1 \<le> i"
    and inv: "\<And>v k. dup v = Some k \<longleftrightarrow> (1 \<le> k \<and> k < i \<and> w ! k = v)"
    by (simp_all add: walkInv_def)
  have none: "dup (w ! i) = None"
  proof (cases "dup (w ! i)")
    case None
    then show ?thesis .
  next
    case (Some k)
    with assms(2) have "k = 0" by (simp split: if_splits)
    with Some inv[of "w ! i" k] show ?thesis by simp
  qed
  have "(dup(w ! i \<mapsto> i)) v = Some k \<longleftrightarrow> (1 \<le> k \<and> k < i + 1 \<and> w ! k = v)" for v k
  proof (cases "v = w ! i")
    case True
    show ?thesis
    proof
      assume "(dup(w ! i \<mapsto> i)) v = Some k"
      with True have "k = i" by simp
      with True i1 show "1 \<le> k \<and> k < i + 1 \<and> w ! k = v" by simp
    next
      assume r: "1 \<le> k \<and> k < i + 1 \<and> w ! k = v"
      have "k = i"
      proof (rule ccontr)
        assume "k \<noteq> i"
        with r have "1 \<le> k \<and> k < i \<and> w ! k = w ! i" using True by simp
        with inv[of "w ! i" k] none show False by simp
      qed
      with True show "(dup(w ! i \<mapsto> i)) v = Some k" by simp
    qed
  next
    case False
    then have "(dup(w ! i \<mapsto> i)) v = dup v" by simp
    moreover have "(1 \<le> k \<and> k < i + 1 \<and> w ! k = v) \<longleftrightarrow> (1 \<le> k \<and> k < i \<and> w ! k = v)"
      using False by (cases "k = i") auto
    ultimately show ?thesis using inv[of v k] by simp
  qed
  with i1 show ?thesis by (simp add: walkInv_def)
qed

lemma walkInv_hit:
  assumes "walkInv w dup i" "dup (w ! i) = Some k" "k \<noteq> 0" "i + 1 < length w"
      and "w1 = take (k + 1) w @ drop (i + 1) w"
      and "dup1 = fst (forgetBetween w dup det [k + 1..<i])"
  shows "walkInv w1 dup1 (k + 1)" "1 \<le> k" "k < i"
proof -
  from assms(1) have i1: "1 \<le> i"
    and inv: "\<And>v j. dup v = Some j \<longleftrightarrow> (1 \<le> j \<and> j < i \<and> w ! j = v)"
    by (simp_all add: walkInv_def)
  from inv[of "w ! i" k] assms(2) show k: "1 \<le> k" "k < i" by simp_all
  have nth1: "w1 ! j = w ! j" if "j < k + 1" for j
    using that k assms(4) by (simp add: assms(5) nth_append)
  have "dup1 v = Some j \<longleftrightarrow> (1 \<le> j \<and> j < k + 1 \<and> w1 ! j = v)" for v j
  proof
    assume d: "dup1 v = Some j"
    then have notin: "v \<notin> (\<lambda>j. w ! j) ` set [k + 1..<i]" and dv: "dup v = Some j"
      by (simp_all add: assms(6) forgetBetween_dup split: if_splits)
    from dv inv[of v j] have j: "1 \<le> j" "j < i" "w ! j = v" by simp_all
    have "j < k + 1"
    proof (rule ccontr)
      assume "\<not> j < k + 1"
      with j have "j \<in> set [k + 1..<i]" by simp
      with j(3) notin show False by blast
    qed
    with j nth1[of j] show "1 \<le> j \<and> j < k + 1 \<and> w1 ! j = v" by simp
  next
    assume r: "1 \<le> j \<and> j < k + 1 \<and> w1 ! j = v"
    with nth1[of j] have wj: "w ! j = v" by simp
    with r k inv[of v j] have dv: "dup v = Some j" by simp
    have "v \<notin> (\<lambda>j. w ! j) ` set [k + 1..<i]"
    proof
      assume "v \<in> (\<lambda>j. w ! j) ` set [k + 1..<i]"
      then obtain j' where j': "k + 1 \<le> j'" "j' < i" "w ! j' = v" by auto
      with inv[of v j'] have "dup v = Some j'" by simp
      with dv j' r show False by simp
    qed
    with dv show "dup1 v = Some j" by (simp add: assms(6) forgetBetween_dup)
  qed
  then show "walkInv w1 dup1 (k + 1)" by (simp add: walkInv_def)
qed

lemma splice_props:
  assumes "1 \<le> k" "k < i" "i + 1 < length w" "w1 = take (k + 1) w @ drop (i + 1) w"
  shows "2 \<le> length w1" "hd w1 = hd w" "last w1 = last w" "w1 ! 1 = w ! 1" "set w1 \<subseteq> set w"
        "set (butlast (tl w1)) \<subseteq> set (butlast (tl w))"
proof -
  from assms have ne: "w \<noteq> []" "drop (i + 1) w \<noteq> []" "take (k + 1) w \<noteq> []" by auto
  show "2 \<le> length w1" using assms by simp
  show "hd w1 = hd w" using ne by (simp add: assms(4))
  show "last w1 = last w" using ne assms(3) by (simp add: assms(4))
  show "w1 ! 1 = w ! 1" using assms by (simp add: nth_append)
  show "set w1 \<subseteq> set w"
    using set_take_subset[of "k + 1" w] set_drop_subset[of "i + 1" w] by (auto simp: assms(4))
  have tl1: "tl w1 = take k (tl w) @ drop i (tl w)"
    using ne by (simp add: assms(4) tl_take drop_Suc tl_drop)
  have dne: "drop i (tl w) \<noteq> []" using assms(3) by simp
  have "butlast (tl w1) = take k (tl w) @ butlast (drop i (tl w))"
    using dne by (simp add: tl1 butlast_append)
  also have "take k (tl w) = take k (butlast (tl w))"
    using assms(2,3) by (simp add: take_butlast)
  also have "butlast (drop i (tl w)) = drop i (butlast (tl w))"
    by (simp add: butlast_drop)
  finally have "butlast (tl w1) = take k (butlast (tl w)) @ drop i (butlast (tl w))" .
  then show "set (butlast (tl w1)) \<subseteq> set (butlast (tl w))"
    using set_take_subset[of k "butlast (tl w)"] set_drop_subset[of i "butlast (tl w)"] by auto
qed

lemma walkInv_distinct:
  assumes "walkInv w dup i" "length w \<le> i + 1"
  shows "distinct (butlast (tl w))"
proof -
  from assms(1) have inv: "\<And>v k. dup v = Some k \<longleftrightarrow> (1 \<le> k \<and> k < i \<and> w ! k = v)"
    by (simp add: walkInv_def)
  have nth: "butlast (tl w) ! j = w ! (j + 1)" if "j < length (butlast (tl w))" for j
    using that by (simp add: nth_butlast nth_tl)
  show ?thesis
    unfolding distinct_conv_nth
  proof (intro allI impI)
    fix a b assume a: "a < length (butlast (tl w))" and b: "b < length (butlast (tl w))" and ne: "a \<noteq> b"
    show "butlast (tl w) ! a \<noteq> butlast (tl w) ! b"
    proof
      assume "butlast (tl w) ! a = butlast (tl w) ! b"
      with nth[OF a] nth[OF b] have eq: "w ! (a + 1) = w ! (b + 1)" by simp
      from a b assms(2) have "a + 1 < i" "b + 1 < i" by simp_all
      with inv[of "w ! (a + 1)" "a + 1"] inv[of "w ! (a + 1)" "b + 1"] eq
      have "dup (w ! (a + 1)) = Some (a + 1)" "dup (w ! (a + 1)) = Some (b + 1)" by simp_all
      with ne show False by simp
    qed
  qed
qed

lemma simplifyWalk_props:
  assumes "simplifyWalk fuel w dup det i = Returns (w', det')" "walkInv w dup i" "2 \<le> length w"
  shows "2 \<le> length w' \<and> hd w' = hd w \<and> last w' = last w \<and> w' ! 1 = w ! 1 \<and> set w' \<subseteq> set w \<and>
         set (butlast (tl w')) \<subseteq> set (butlast (tl w)) \<and> distinct (butlast (tl w'))"
  using assms
proof (induction fuel arbitrary: w dup det i)
  case 0
  then show ?case by simp
next
  case (Suc fuel)
  show ?case
  proof (cases "i + 1 < length w")
    case False
    with Suc.prems(1) have "w' = w" by simp
    moreover have "distinct (butlast (tl w))"
      by (rule walkInv_distinct[OF Suc.prems(2)]) (use False in simp)
    ultimately show ?thesis using Suc.prems(3) by simp
  next
    case True
    let ?d = "case dup (w ! i) of None \<Rightarrow> None | Some k \<Rightarrow> if k = 0 then None else Some k"
    show ?thesis
    proof (cases ?d)
      case None
      with True Suc.prems(1) have
        r: "simplifyWalk fuel w (dup(w ! i \<mapsto> i)) det (i + 1) = Returns (w', det')"
        by simp
      from Suc.IH[OF r walkInv_miss[OF Suc.prems(2) None] Suc.prems(3)] show ?thesis .
    next
      case (Some k)
      then have dk: "dup (w ! i) = Some k" and k0: "k \<noteq> 0"
        by (auto split: option.splits if_splits)
      define w1 where "w1 = take (k + 1) w @ drop (i + 1) w"
      define fb where "fb = forgetBetween w dup (setAdd det k) [k + 1..<i]"
      note hit = walkInv_hit[where det = "setAdd det k", OF Suc.prems(2) dk k0 True w1_def refl]
      have w1': "take (Suc k) w @ drop (Suc (k + (i - k))) w = w1"
        using hit(3) by (simp add: w1_def)
      from True Some Suc.prems(1) have
        r: "simplifyWalk fuel w1 (fst fb) (snd fb) (k + 1) = Returns (w', det')"
        by (simp add: Let_def w1' fb_def case_prod_beta)
      note sp = splice_props[OF hit(2,3) True w1_def]
      from Suc.IH[OF r _ sp(1)] hit(1) have
        IH: "2 \<le> length w' \<and> hd w' = hd w1 \<and> last w' = last w1 \<and> w' ! 1 = w1 ! 1 \<and> set w' \<subseteq> set w1 \<and>
             set (butlast (tl w')) \<subseteq> set (butlast (tl w1)) \<and> distinct (butlast (tl w'))"
        by (simp add: fb_def)
      with sp show ?thesis by auto
    qed
  qed
qed

section \<open>Cycle extractor: the basis of a component\<close>

lemma basisSpecD:
  assumes "basisSpec basis" "symAdj s" "inStore s component" "basis s component = Returns (t, s')"
  shows "symAdj s'" "evolves s s'" "newEmpty s s'"
        "list_all (\<lambda>v. adjacent (s' ! v) = []) component" "cyclesOK s' t"
  using assms unfolding basisSpec_def by blast+

lemma evolves_length: "evolves s s' \<Longrightarrow> length s \<le> length s'"
  by (simp add: evolves_def)

lemma evolves_empty: "evolves s s' \<Longrightarrow> i < length s \<Longrightarrow> adjacent (s ! i) = [] \<Longrightarrow> adjacent (s' ! i) = []"
  by (simp add: evolves_def)

lemma evolves_name: "evolves s s' \<Longrightarrow> i < length s \<Longrightarrow> name (s' ! i) = name (s ! i)"
  by (simp add: evolves_def)

lemma cyclesOK_unwrap:
  assumes "list_all (cyclesOK s) kids"
  shows "cyclesOK s (unwrap (CycleTree [] kids))"
proof (cases "length kids = 1")
  case True
  then obtain k where k: "kids = [k]" by (cases kids) auto
  with assms have "cyclesOK s k" by simp
  moreover have "unwrap (CycleTree [] kids) = k"
    by (cases k) (simp add: unwrap_def k)
  ultimately show ?thesis by simp
next
  case False
  then have "unwrap (CycleTree [] kids) = CycleTree [] kids"
    by (simp add: unwrap_def)
  with assms show ?thesis
    by (auto simp: cyclesOK_def list_all_iff)
qed

lemma cyclesOK_node:
  assumes "list_all (cyclesOK s) kids" "c = [] \<or> recordCycle s c"
  shows "cyclesOK s (CycleTree c kids)"
  using assms by (auto simp: cyclesOK_def list_all_iff)

lemma list_all_cyclesOK_evolves:
  "list_all (cyclesOK s) kids \<Longrightarrow> evolves s s' \<Longrightarrow> list_all (cyclesOK s') kids"
  using cyclesOK_evolves by (auto simp: list_all_iff)

text \<open>Detaching a clone, finding its component and extracting the basis of it.\<close>

lemma detach_and_extract:
  assumes "basisSpec basis" "symAdj s" "original < length s"
      and "set vs \<subseteq> set (adjacent (s ! original))"
      and "detachToClone s original vs = (s1, clone)"
      and "depthFirstSearch fuel s1 clone = Returns (s2, component)"
      and "basis s2 component = Returns (t, s3)"
  shows "symAdj s3" "evolves s s3" "newEmpty s s3" "cyclesOK s3 t"
proof -
  note D = detachToClone_props[OF assms(2,3,4,5)]
  have cl: "clone < length s1" using D(3,4) by simp
  note F = depthFirstSearch_props[OF assms(6) D(1) cl]
  note B = basisSpecD[OF assms(1) F(1,4) assms(7)]
  show "symAdj s3" by (rule B(1))
  show "cyclesOK s3 t" by (rule B(5))
  show "evolves s s3"
    by (rule evolves_trans[OF D(2) evolves_trans[OF F(2) B(2)]])
  have cle: "adjacent (s3 ! clone) = []"
    using B(4) F(5) by (simp add: list_all_iff)
  show "newEmpty s s3"
    unfolding newEmpty_def
  proof (intro allI impI)
    fix i assume i: "length s \<le> i \<and> i < length s3"
    show "adjacent (s3 ! i) = []"
    proof (cases "i = length s")
      case True
      with cle D(3) show ?thesis by simp
    next
      case False
      with i have "length s2 \<le> i \<and> i < length s3" using F(3) D(4) by simp
      with B(3) show ?thesis by (simp add: newEmpty_def)
    qed
  qed
qed

lemma wedgeVertices_subset:
  "set (wedgeVertices s original minVertex maxVertex) \<subseteq> set (adjacent (s ! original))"
  by (simp add: wedgeVertices_def Let_def)

lemma detachAll_props:
  assumes "detachAll basis fuel s walk dets kids = Returns (kids', s')"
      and "basisSpec basis" "symAdj s" "inStore s walk" "list_all (cyclesOK s) kids"
  shows "symAdj s' \<and> evolves s s' \<and> newEmpty s s' \<and> list_all (cyclesOK s') kids'"
  using assms
proof (induction dets arbitrary: s kids)
  case Nil
  then show ?case by (auto simp: evolves_refl newEmpty_same_length)
next
  case (Cons i rest)
  from Cons.prems(1) have lt: "i + 1 < length walk"
    by (auto split: if_splits)
  let ?original = "walk ! i"
  let ?minV = "if i > 0 then walk ! (i - 1) else walk ! (length walk - 2)"
  let ?inWedge = "wedgeVertices s ?original (walk ! (i + 1)) ?minV"
  let ?inW = "wedgeVertices s ?original ?minV (walk ! (i + 1))"
  have orig: "?original < length s"
    using Cons.prems(4) lt by (simp add: inStore_def list_all_length)
  show ?case
  proof (cases "length ?inW > 0")
    case False
    with Cons.prems(1) lt have r: "detachAll basis fuel s walk rest kids = Returns (kids', s')"
      by (simp add: Let_def)
    from Cons.IH[OF r Cons.prems(2,3,4,5)] show ?thesis .
  next
    case True
    obtain s1 clone where d: "detachToClone s ?original ?inW = (s1, clone)"
      by (cases "detachToClone s ?original ?inW")
    from Cons.prems(1) lt True d obtain s2 component t s3 where
      f: "depthFirstSearch fuel s1 clone = Returns (s2, component)" and
      b: "basis s2 component = Returns (t, s3)" and
      r: "detachAll basis fuel s3 walk rest (kids @ [t]) = Returns (kids', s')"
      by (auto simp: Let_def obind_def split: outcome.splits)
    note E = detach_and_extract[OF Cons.prems(2,3) orig wedgeVertices_subset d f b]
    have w3: "inStore s3 walk"
      by (rule inStore_mono[OF Cons.prems(4) evolves_length[OF E(2)]])
    have k3: "list_all (cyclesOK s3) (kids @ [t])"
      using list_all_cyclesOK_evolves[OF Cons.prems(5) E(2)] E(4) by simp
    from Cons.IH[OF r Cons.prems(2) E(1) w3 k3] have
      IH: "symAdj s'" "evolves s3 s'" "newEmpty s3 s'" "list_all (cyclesOK s') kids'"
      by simp_all
    from IH(1,4) evolves_trans[OF E(2) IH(2)] newEmpty_trans[OF E(3) IH(2,3)]
    show ?thesis by simp
  qed
qed

lemma butlast_hd_tl:
  assumes "2 \<le> length w"
  shows "butlast w = hd w # butlast (tl w)"
  using assms by (cases w) auto

lemma extractCycleFromClosedWalk_props:
  assumes "extractCycleFromClosedWalk basis fuel s W = Returns (t, s')"
      and "basisSpec basis" "symAdj s" "inStore s W" "2 \<le> length W" "hd W = last W"
      and "hd W \<notin> set (butlast (tl W))" "W ! 1 \<in> set (adjacent (s ! hd W))"
  shows "symAdj s' \<and> evolves s s' \<and> newEmpty s s' \<and> cyclesOK s' t"
proof -
  from assms(1) obtain walk dets where
    sw: "simplifyWalk fuel W Map.empty [] 1 = Returns (walk, dets)"
    by (auto simp: extractCycleFromClosedWalk_def obind_def split: outcome.splits)
  have inv0: "walkInv W Map.empty 1"
    by (simp add: walkInv_def)
  from simplifyWalk_props[OF sw inv0 assms(5)] have
    S: "2 \<le> length walk" "hd walk = hd W" "last walk = last W" "walk ! 1 = W ! 1"
       "set walk \<subseteq> set W" "set (butlast (tl walk)) \<subseteq> set (butlast (tl W))"
       "distinct (butlast (tl walk))"
    by simp_all
  have inw: "inStore s walk"
    using assms(4) S(5) by (auto simp: inStore_def list_all_iff)
  have dist: "distinct (butlast walk)"
    using S(1,2,6,7) assms(7) by (auto simp: butlast_hd_tl)
  have closed: "hd walk = last walk"
    using S(2,3) assms(6) by simp
  have hd0: "walk ! 0 = hd W"
    using S(1,2) by (cases walk) auto
  show ?thesis
  proof (cases "length walk > 3")
    case True
    with assms(1) sw obtain kids s1 cyc where
      da: "detachAll basis fuel s walk (setAdd dets 0) [] = Returns (kids, s1)" and
      ec: "extractCycle fuel s1 walk = Returns (cyc, s')" and
      t: "t = CycleTree cyc kids"
      by (auto simp: extractCycleFromClosedWalk_def obind_def split: outcome.splits)
    from detachAll_props[OF da assms(2,3) inw] have
      D: "symAdj s1" "evolves s s1" "newEmpty s s1" "list_all (cyclesOK s1) kids"
      by simp_all
    note C = extractCycle_props[OF ec D(1)]
    have in1: "inStore s1 walk"
      by (rule inStore_mono[OF inw evolves_length[OF D(2)]])
    have "recordCycle s1 cyc"
      unfolding recordCycle_def
      using True closed dist in1 C(4)
      by (intro exI[of _ walk]) (simp add: inStore_def)
    then have "recordCycle s' cyc"
      by (rule recordCycle_evolves[OF _ C(2)])
    then have "cyclesOK s' t"
      unfolding t using list_all_cyclesOK_evolves[OF D(4) C(2)] by (intro cyclesOK_node) simp_all
    moreover have "newEmpty s s'"
      by (rule newEmpty_trans[OF D(3) C(2)]) (simp add: newEmpty_same_length C(3))
    ultimately show ?thesis
      using C(1) evolves_trans[OF D(2) C(2)] by simp
  next
    case False
    obtain s1 clone where d: "detachToClone s (walk ! 0) [walk ! 1] = (s1, clone)"
      by (cases "detachToClone s (walk ! 0) [walk ! 1]")
    from assms(1) sw False S(1) d obtain s2 component t0 where
      f: "depthFirstSearch fuel s1 clone = Returns (s2, component)" and
      b: "basis s2 component = Returns (t0, s')" and
      t: "t = unwrap (CycleTree [] [t0])"
      by (auto simp: extractCycleFromClosedWalk_def obind_def Let_def split: outcome.splits)
    have "walk ! 0 \<in> set walk"
      using S(1) by (intro nth_mem) auto
    then have orig: "walk ! 0 < length s"
      by (rule inStore_mem[OF inw])
    have sub: "set [walk ! 1] \<subseteq> set (adjacent (s ! (walk ! 0)))"
      using assms(8) S(4) hd0 by simp
    note E = detach_and_extract[OF assms(2,3) orig sub d f b]
    have "cyclesOK s' t"
      unfolding t by (rule cyclesOK_unwrap) (simp add: E(4))
    with E show ?thesis by simp
  qed
qed

lemma leftOf_cases: "leftOf s m v = m \<or> leftOf s m v = v"
  by (simp add: leftOf_def Let_def)

lemma foldl_leftOf_mem: "foldl (leftOf s) m vs \<in> insert m (set vs)"
proof (induction vs arbitrary: m)
  case Nil
  then show ?case by simp
next
  case (Cons v vs)
  from Cons.IH[of "leftOf s m v"] leftOf_cases[of s m v] show ?case by auto
qed

lemma extractCycleFromComponent_props:
  assumes "extractCycleFromComponent basis fuel s component = Returns (t, s', component')"
      and "basisSpec basis" "symAdj s" "inStore s component"
  shows "symAdj s'" "evolves s s'" "newEmpty s s'" "cyclesOK s' t" "inStore s' component'"
        "component' = filter (\<lambda>vertex. length (adjacent (s' ! vertex)) > 0) component"
proof -
  from assms(1) have ne: "component \<noteq> []"
    by (auto simp: extractCycleFromComponent_def)
  let ?vStart = "foldl (leftOf s) (component ! 0) component"
  have "?vStart \<in> set component"
    using foldl_leftOf_mem[of s "component ! 0" component] ne by (cases component) auto
  then have vs: "?vStart < length s"
    using assms(4) by (simp add: inStore_def list_all_iff)
  from assms(1) ne obtain W where
    cw: "closedWalkLoop fuel s ?vStart [?vStart] ?vStart (getClockwiseMost s None ?vStart) = Returns W" and
    ex: "extractCycleFromClosedWalk basis fuel s W = Returns (t, s')" and
    c': "component' = filter (\<lambda>vertex. length (adjacent (s' ! vertex)) > 0) component"
    by (auto simp: extractCycleFromComponent_def obind_def Let_def split: outcome.splits)
  have m: "\<And>a. getClockwiseMost s None ?vStart = Some a \<Longrightarrow> a \<in> set (adjacent (s ! ?vStart))"
    by (rule getClockwiseMost_mem)
  from closedWalkLoop_props[OF cw assms(3) vs m] obtain mid a where
    W: "W = [?vStart] @ mid @ [?vStart]" "?vStart \<notin> set mid" "inStore s mid"
       "getClockwiseMost s None ?vStart = Some a" "a = hd (mid @ [?vStart])"
    by blast
  have inW: "inStore s W" using W(1,3) vs by simp
  have len: "2 \<le> length W" using W(1) by simp
  have hl: "hd W = last W" using W(1) by simp
  have hdW: "hd W = ?vStart" using W(1) by simp
  have "butlast (tl W) = mid" using W(1) by (simp add: butlast_append)
  with W(2) hdW have notin: "hd W \<notin> set (butlast (tl W))" by simp
  have "W ! 1 = a" using W(1,5) by (cases mid) simp_all
  with getClockwiseMost_mem[OF W(4)] hdW have w1: "W ! 1 \<in> set (adjacent (s ! hd W))" by simp
  from extractCycleFromClosedWalk_props[OF ex assms(2,3) inW len hl notin w1] have
    E: "symAdj s'" "evolves s s'" "newEmpty s s'" "cyclesOK s' t"
    by simp_all
  show "symAdj s'" "evolves s s'" "newEmpty s s'" "cyclesOK s' t" by (rule E)+
  show "component' = filter (\<lambda>vertex. length (adjacent (s' ! vertex)) > 0) component" by (rule c')
  show "inStore s' component'"
    unfolding c' by (rule inStore_filter[OF inStore_mono[OF assms(4) evolves_length[OF E(2)]]])
qed

lemma extractBasisLoop_props:
  assumes "extractBasisLoop basis fuel n s component kids = Returns (kids', s')"
      and "basisSpec basis" "symAdj s" "inStore s component" "list_all (cyclesOK s) kids"
  shows "symAdj s' \<and> evolves s s' \<and> newEmpty s s' \<and> list_all (cyclesOK s') kids' \<and>
         list_all (\<lambda>v. adjacent (s' ! v) = []) component"
  using assms
proof (induction n arbitrary: s component kids)
  case 0
  then show ?case by simp
next
  case (Suc n)
  show ?case
  proof (cases "length component > 0")
    case False
    with Suc.prems show ?thesis
      by (auto simp: evolves_refl newEmpty_same_length)
  next
    case True
    with Suc.prems(1) obtain s1 component1 where
      rf: "removeFilaments fuel s component = Returns (s1, component1)" and
      rest: "(if length component1 > 0 then
               obind (extractCycleFromComponent basis fuel s1 component1) (\<lambda>(t, store2, component2).
                 extractBasisLoop basis fuel n store2 component2 (kids @ [t]))
             else Returns (kids, s1)) = Returns (kids', s')"
      by (auto simp: obind_def split: outcome.splits)
    note R = removeFilaments_props(1-6)[OF rf Suc.prems(3,4)]
    have k1: "list_all (cyclesOK s1) kids"
      by (rule list_all_cyclesOK_evolves[OF Suc.prems(5) R(2)])
    show ?thesis
    proof (cases "length component1 > 0")
      case False
      with rest have eq: "kids' = kids" "s' = s1" by simp_all
      from False R(6) have "list_all (\<lambda>v. adjacent (s1 ! v) = []) component"
        by (auto simp: list_all_iff)
      with R(1,2,3) k1 eq show ?thesis by (simp add: newEmpty_same_length)
    next
      case c1: True
      with rest obtain t s2 component2 where
        ec: "extractCycleFromComponent basis fuel s1 component1 = Returns (t, s2, component2)" and
        r: "extractBasisLoop basis fuel n s2 component2 (kids @ [t]) = Returns (kids', s')"
        by (auto simp: obind_def split: outcome.splits)
      note C = extractCycleFromComponent_props[OF ec Suc.prems(2) R(1,4)]
      have k2: "list_all (cyclesOK s2) (kids @ [t])"
        using list_all_cyclesOK_evolves[OF k1 C(2)] C(4) by simp
      from Suc.IH[OF r Suc.prems(2) C(1,5) k2] have
        IH: "symAdj s'" "evolves s2 s'" "newEmpty s2 s'" "list_all (cyclesOK s') kids'"
            "list_all (\<lambda>v. adjacent (s' ! v) = []) component2"
        by simp_all
      have ev1: "evolves s1 s'" by (rule evolves_trans[OF C(2) IH(2)])
      have ev: "evolves s s'" by (rule evolves_trans[OF R(2) ev1])
      have ne1: "newEmpty s1 s'" by (rule newEmpty_trans[OF C(3) IH(2,3)])
      have ne: "newEmpty s s'"
        by (rule newEmpty_trans[OF newEmpty_same_length[OF R(3)] ev1 ne1])
      have "adjacent (s' ! v) = []" if v: "v \<in> set component" for v
      proof (cases "v \<in> set component1")
        case False
        from R(6)[OF v False] have "adjacent (s1 ! v) = []" .
        moreover have "v < length s1" using v Suc.prems(4) R(3) by (simp add: inStore_def list_all_iff)
        ultimately show ?thesis by (rule evolves_empty[OF ev1, rotated])
      next
        case in1: True
        show ?thesis
        proof (cases "v \<in> set component2")
          case True
          with IH(5) show ?thesis by (simp add: list_all_iff)
        next
          case False
          with in1 C(6) have "adjacent (s2 ! v) = []" by simp
          moreover have "v < length s2"
            using in1 R(4) evolves_length[OF C(2)] by (auto simp: inStore_def list_all_iff)
          ultimately show ?thesis by (rule evolves_empty[OF IH(2), rotated])
        qed
      qed
      then have "list_all (\<lambda>v. adjacent (s' ! v) = []) component"
        by (simp add: list_all_iff)
      with IH(1,4) ev ne show ?thesis by simp
    qed
  qed
qed

lemma extractBasis_spec: "basisSpec (extractBasis fuel)"
proof (induction fuel)
  case 0
  show ?case by (simp add: basisSpec_def)
next
  case (Suc fuel)
  show ?case
    unfolding basisSpec_def
  proof (intro allI impI)
    fix s component t s'
    assume a: "symAdj s \<and> inStore s component \<and> extractBasis (Suc fuel) s component = Returns (t, s')"
    then obtain kids where
      l: "extractBasisLoop (extractBasis fuel) (Suc fuel) (Suc fuel) s component [] = Returns (kids, s')"
      and t: "t = unwrap (CycleTree [] kids)"
      by (auto simp: obind_def split: outcome.splits)
    from extractBasisLoop_props[OF l Suc.IH] a have
      L: "symAdj s'" "evolves s s'" "newEmpty s s'" "list_all (cyclesOK s') kids"
         "list_all (\<lambda>v. adjacent (s' ! v) = []) component"
      by simp_all
    from L cyclesOK_unwrap[OF L(4)] t
    show "symAdj s' \<and> evolves s s' \<and> newEmpty s s' \<and>
          list_all (\<lambda>v. adjacent (s' ! v) = []) component \<and> cyclesOK s' t"
      by simp
  qed
qed

section \<open>Discovery\<close>

lemma namesIn_evolves:
  assumes "namesIn n s" "evolves s s'"
  shows "namesIn n s'"
  unfolding namesIn_def list_all_length
proof (intro allI impI)
  fix i assume i: "i < length s'"
  have old: "0 \<le> name (s ! j) \<and> name (s ! j) < n" if "j < length s" for j
    using assms(1) that by (simp add: namesIn_def list_all_length)
  show "0 \<le> name (s' ! i) \<and> name (s' ! i) < n"
  proof (cases "i < length s")
    case True
    with evolves_name[OF assms(2) True] old[OF True] show ?thesis by simp
  next
    case False
    with evolves_new[OF assms(2), of i] i obtain j where "j < length s" "name (s' ! i) = name (s ! j)"
      by auto
    with old[of j] show ?thesis by simp
  qed
qed

text \<open>Building the graph of a call.\<close>

lemma symAdj_append_empties:
  assumes "symAdj s" "list_all (\<lambda>v. adjacent v = []) vs"
  shows "symAdj (s @ vs)"
  using assms
proof (induction vs rule: rev_induct)
  case Nil
  then show ?case by simp
next
  case (snoc v vs)
  then have "symAdj ((s @ vs) @ [v])"
    by (intro symAdj_append_empty) simp_all
  then show ?case by simp
qed

lemma addEdges_props:
  assumes "symAdj s" "\<And>k v. unique k = Some v \<Longrightarrow> base \<le> v \<and> v < length s"
  shows "symAdj (addEdges unique s es) \<and> length (addEdges unique s es) = length s \<and>
         (\<forall>i. name (addEdges unique s es ! i) = name (s ! i)) \<and>
         (\<forall>i. visited (addEdges unique s es ! i) = visited (s ! i)) \<and>
         (\<forall>i < base. adjacent (addEdges unique s es ! i) = adjacent (s ! i))"
  using assms
proof (induction es arbitrary: s)
  case Nil
  then show ?case by simp
next
  case (Cons e es)
  show ?case
  proof (cases "unique (fst e)")
    case None
    with Cons show ?thesis by simp
  next
    case s0: (Some iter0)
    show ?thesis
    proof (cases "unique (snd e)")
      case None
      with s0 Cons show ?thesis by simp
    next
      case s1: (Some iter1)
      let ?s' = "addAdjacent (addAdjacent s iter0 iter1) iter1 iter0"
      from Cons.prems(2)[OF s0] Cons.prems(2)[OF s1] have r: "base \<le> iter0" "iter0 < length s"
          "base \<le> iter1" "iter1 < length s" by simp_all
      have sym: "symAdj ?s'" by (rule symAdj_addEdge[OF Cons.prems(1) r(2,4)])
      have "\<And>k v. unique k = Some v \<Longrightarrow> base \<le> v \<and> v < length ?s'"
        using Cons.prems(2) by simp
      from Cons.IH[OF sym this] r s0 s1 show ?thesis
        by (auto simp: adjacent_addAdjacent addAdjacent_def nth_list_update)
    qed
  qed
qed

lemma map_of_zip_range:
  assumes "map_of (zip names [base..<base + length names]) k = Some v"
  shows "base \<le> v \<and> v < base + length names"
proof -
  from assms have "(k, v) \<in> set (zip names [base..<base + length names])"
    by (rule map_of_SomeD)
  then have "v \<in> set [base..<base + length names]"
    by (rule set_zip_rightD)
  then show ?thesis by simp
qed

lemma uniqueNames_subset:
  "set (uniqueNames acc es) \<subseteq> set acc \<union> fst ` set es \<union> snd ` set es"
proof (induction es arbitrary: acc)
  case Nil
  then show ?case by simp
next
  case (Cons e es)
  from Cons.IH[of "setAdd (setAdd acc (fst e)) (snd e)"] show ?case by auto
qed

lemma validateEdges_None:
  "validateEdges m keys es = None \<Longrightarrow> e \<in> set es \<Longrightarrow> 0 \<le> fst e \<and> fst e \<le> m \<and> 0 \<le> snd e \<and> snd e \<le> m"
  by (induction es arbitrary: keys) (auto split: if_splits)

lemma validateInputs_None_names:
  assumes "validateInputs ps es = None" "k \<in> set (uniqueNames [] es)"
  shows "0 \<le> k \<and> k < int (length ps)"
proof -
  from assms(1) have v: "validateEdges (int (length ps) - 1) [] es = None"
    by (auto simp: validateInputs_def split: if_splits option.splits)
  from assms(2) uniqueNames_subset[of "[]" es] obtain e where "e \<in> set es" "k = fst e \<or> k = snd e"
    by auto
  with validateEdges_None[OF v, of e] show ?thesis by auto
qed

text \<open>The loop of \<open>discover\<close> that seeds a component at every unvisited record.\<close>

lemma findComponents_props:
  assumes "findComponents fuel s ids components = Returns (s', components')"
      and "symAdj s" "inStore s ids" "list_all (inStore s) components"
  shows "symAdj s' \<and> length s' = length s \<and> (\<forall>i. adjacent (s' ! i) = adjacent (s ! i)) \<and>
         (\<forall>i. name (s' ! i) = name (s ! i)) \<and> list_all (inStore s') components' \<and>
         set components \<subseteq> set components' \<and>
         (\<forall>v \<in> set ids. visited (s ! v) = 0 \<longrightarrow> (\<exists>c \<in> set components'. v \<in> set c))"
  using assms
proof (induction ids arbitrary: s components)
  case Nil
  then show ?case by simp
next
  case (Cons vInitial rest)
  from Cons.prems(3) have vi: "vInitial < length s" and restIn: "inStore s rest" by simp_all
  show ?case
  proof (cases "visited (s ! vInitial) = 0")
    case False
    with Cons.prems(1) have r: "findComponents fuel s rest components = Returns (s', components')"
      by simp
    from Cons.IH[OF r Cons.prems(2) restIn Cons.prems(4)] False show ?thesis by simp
  next
    case True
    with Cons.prems(1) obtain s1 component where
      d: "depthFirstSearch fuel s vInitial = Returns (s1, component)" and
      r: "findComponents fuel s1 rest (components @ [component]) = Returns (s', components')"
      by (auto simp: obind_def split: outcome.splits)
    note D = depthFirstSearch_props[OF d Cons.prems(2) vi]
    from d have dl: "dfsLoop fuel s [vInitial] [] = Returns (s1, component)"
      by (simp add: depthFirstSearch_def)
    have names1: "\<And>i. name (s1 ! i) = name (s ! i)"
      using dfsLoop_same[OF dl] by simp
    have rest1: "inStore s1 rest" using restIn D(3) by (simp add: inStore_def)
    have comps1: "list_all (inStore s1) (components @ [component])"
      using Cons.prems(4) D(3,4) by (simp add: inStore_def list_all_iff)
    from Cons.IH[OF r D(1) rest1 comps1] have
      IH: "symAdj s'" "length s' = length s1" "\<And>i. adjacent (s' ! i) = adjacent (s1 ! i)"
          "\<And>i. name (s' ! i) = name (s1 ! i)" "list_all (inStore s') components'"
          "set (components @ [component]) \<subseteq> set components'"
          "\<And>v. v \<in> set rest \<Longrightarrow> visited (s1 ! v) = 0 \<Longrightarrow> \<exists>c \<in> set components'. v \<in> set c"
      by simp_all
    have cover: "\<exists>c \<in> set components'. v \<in> set c"
      if v: "v \<in> set (vInitial # rest)" and z: "visited (s ! v) = 0" for v
    proof (cases "v \<in> set component")
      case True
      with IH(6) show ?thesis by auto
    next
      case False
      with D(5) v have vr: "v \<in> set rest" by auto
      then have vl: "v < length s" using restIn by (simp add: inStore_def list_all_iff)
      have "visited (s1 ! v) = 0"
      proof (rule ccontr)
        assume "visited (s1 ! v) \<noteq> 0"
        from dfsLoop_visited[OF dl vl this] z False show False by simp
      qed
      from IH(7)[OF vr this] show ?thesis .
    qed
    from IH(1,5,6) IH(2) D(3) IH(3) D(6) IH(4) names1 cover show ?thesis
      by auto
  qed
qed

lemma extractForest_props:
  assumes "extractForest fuel s components trees = Returns (trees', s')"
      and "symAdj s" "list_all (inStore s) components" "list_all (cyclesOK s) trees"
  shows "symAdj s' \<and> evolves s s' \<and> newEmpty s s' \<and> list_all (cyclesOK s') trees' \<and>
         (\<forall>c \<in> set components. list_all (\<lambda>v. adjacent (s' ! v) = []) c)"
  using assms
proof (induction components arbitrary: s trees)
  case Nil
  then show ?case by (auto simp: evolves_refl newEmpty_same_length)
next
  case (Cons component rest)
  from Cons.prems(1) obtain t s1 where
    b: "extractBasis fuel s component = Returns (t, s1)" and
    r: "extractForest fuel s1 rest (trees @ [t]) = Returns (trees', s')"
    by (auto simp: obind_def split: outcome.splits)
  from Cons.prems(3) have cin: "inStore s component" and restIn: "list_all (inStore s) rest"
    by simp_all
  note B = basisSpecD[OF extractBasis_spec Cons.prems(2) cin b]
  have rest1: "list_all (inStore s1) rest"
    using restIn inStore_mono[OF _ evolves_length[OF B(2)]] by (auto simp: list_all_iff)
  have t1: "list_all (cyclesOK s1) (trees @ [t])"
    using list_all_cyclesOK_evolves[OF Cons.prems(4) B(2)] B(5) by simp
  from Cons.IH[OF r B(1) rest1 t1] have
    IH: "symAdj s'" "evolves s1 s'" "newEmpty s1 s'" "list_all (cyclesOK s') trees'"
        "\<And>c. c \<in> set rest \<Longrightarrow> list_all (\<lambda>v. adjacent (s' ! v) = []) c"
    by simp_all
  have "list_all (\<lambda>v. adjacent (s' ! v) = []) component"
    unfolding list_all_iff
  proof
    fix v assume v: "v \<in> set component"
    with B(4) have "adjacent (s1 ! v) = []" by (simp add: list_all_iff)
    moreover have "v < length s1"
      using inStore_mem[OF cin v] evolves_length[OF B(2)] by simp
    ultimately show "adjacent (s' ! v) = []" by (rule evolves_empty[OF IH(2), rotated])
  qed
  with IH evolves_trans[OF B(2) IH(2)] newEmpty_trans[OF B(3) IH(2,3)]
  show ?case by auto
qed

lemma discover_RESULT:
  assumes "discover fuel store ps es = Returns (RESULT trees', s')"
  obtains store3 components trees where
    "validateInputs ps es = None"
    "findComponents fuel
       (addEdges (map_of (zip (uniqueNames [] es) [length store..<length store + length (uniqueNames [] es)]))
          (store @ map (\<lambda>n. \<lparr>name = n, position = ps ! nat n, visited = 0, adjacent = []\<rparr>) (uniqueNames [] es)) es)
       [0..<length store + length (uniqueNames [] es)] [] = Returns (store3, components)"
    "extractForest fuel (map (\<lambda>vertex. vertex\<lparr>visited := 0\<rparr>) store3) components [] = Returns (trees, s')"
    "trees' = filter (\<lambda>t. \<not> isEmpty t) trees"
proof -
  have len: "length (addEdges u s es) = length s" for u s
    by (induction es arbitrary: s) (auto split: option.splits)
  from assms show thesis
    by (auto simp: discover_def Let_def obind_def len split: option.splits outcome.splits intro: that)
qed

lemma symAdj_reset:
  assumes "symAdj s"
  shows "symAdj (map (\<lambda>vertex. vertex\<lparr>visited := 0\<rparr>) s)"
  unfolding symAdj_def
proof (intro allI impI ballI)
  fix u v
  assume u: "u < length (map (\<lambda>vertex. vertex\<lparr>visited := 0\<rparr>) s)"
     and v: "v \<in> set (adjacent (map (\<lambda>vertex. vertex\<lparr>visited := 0\<rparr>) s ! u))"
  from u have u': "u < length s" by simp
  with v have "v \<in> set (adjacent (s ! u))" by simp
  from symAdjD[OF assms u' this]
  show "v < length (map (\<lambda>vertex. vertex\<lparr>visited := 0\<rparr>) s) \<and>
        u \<in> set (adjacent (map (\<lambda>vertex. vertex\<lparr>visited := 0\<rparr>) s ! v))"
    by simp
qed

lemma discover_props:
  assumes "discover fuel store ps es = Returns (RESULT trees', s')" "symAdj store"
  shows "symAdj s'" "list_all (cyclesOK s') trees'"
        "list_all (\<lambda>v. adjacent v = []) store \<Longrightarrow> list_all (\<lambda>v. adjacent v = []) s'"
        "store = [] \<Longrightarrow> namesIn (int (length ps)) s'"
        "length store \<le> length s'" "\<And>i. i < length store \<Longrightarrow> name (s' ! i) = name (store ! i)"
proof -
  let ?names = "uniqueNames [] es"
  let ?base = "length store"
  let ?unique = "map_of (zip ?names [?base..<?base + length ?names])"
  let ?new = "map (\<lambda>n. \<lparr>name = n, position = ps ! nat n, visited = 0, adjacent = []\<rparr>) ?names"
  let ?store1 = "store @ ?new"
  let ?store2 = "addEdges ?unique ?store1 es"
  from discover_RESULT[OF assms(1)] obtain store3 components trees where
    valid: "validateInputs ps es = None" and
    fc: "findComponents fuel ?store2 [0..<?base + length ?names] [] = Returns (store3, components)" and
    ef: "extractForest fuel (map (\<lambda>vertex. vertex\<lparr>visited := 0\<rparr>) store3) components [] = Returns (trees, s')" and
    tr: "trees' = filter (\<lambda>t. \<not> isEmpty t) trees"
    by blast
  let ?store4 = "map (\<lambda>vertex. vertex\<lparr>visited := 0\<rparr>) store3"
  have sym1: "symAdj ?store1"
    by (rule symAdj_append_empties[OF assms(2)]) (simp add: list_all_iff)
  have rng: "\<And>k v. ?unique k = Some v \<Longrightarrow> ?base \<le> v \<and> v < length ?store1"
    using map_of_zip_range by fastforce
  from addEdges_props[where es = es, OF sym1 rng] have
    A: "symAdj ?store2" "length ?store2 = length ?store1"
       "\<And>i. name (?store2 ! i) = name (?store1 ! i)"
       "\<And>i. visited (?store2 ! i) = visited (?store1 ! i)"
       "\<And>i. i < ?base \<Longrightarrow> adjacent (?store2 ! i) = adjacent (?store1 ! i)"
    by simp_all
  have len2: "length ?store2 = ?base + length ?names" using A(2) by simp
  have ids: "inStore ?store2 [0..<?base + length ?names]"
    by (simp add: inStore_def list_all_iff len2)
  from findComponents_props[OF fc A(1) ids] have
    F: "symAdj store3" "length store3 = length ?store2"
       "\<And>i. adjacent (store3 ! i) = adjacent (?store2 ! i)"
       "\<And>i. name (store3 ! i) = name (?store2 ! i)"
       "list_all (inStore store3) components"
       "\<And>v. v < ?base + length ?names \<Longrightarrow> visited (?store2 ! v) = 0 \<Longrightarrow>
             \<exists>c \<in> set components. v \<in> set c"
    by simp_all
  have len3: "length store3 = ?base + length ?names" using F(2) len2 by simp
  have sym4: "symAdj ?store4" by (rule symAdj_reset[OF F(1)])
  have comps4: "list_all (inStore ?store4) components"
    using F(5) by (auto simp: list_all_iff inStore_def)
  from extractForest_props[OF ef sym4 comps4] have
    E: "symAdj s'" "evolves ?store4 s'" "newEmpty ?store4 s'" "list_all (cyclesOK s') trees"
       "\<And>c. c \<in> set components \<Longrightarrow> list_all (\<lambda>v. adjacent (s' ! v) = []) c"
    by simp_all
  show "symAdj s'" by (rule E(1))
  show "list_all (cyclesOK s') trees'"
    using E(4) by (simp add: tr list_all_iff)
  have len4: "length ?store4 = ?base + length ?names" using len3 by simp
  show "length store \<le> length s'"
    using evolves_length[OF E(2)] len4 by simp
  have name4: "name (?store4 ! i) = name (?store1 ! i)" if "i < ?base + length ?names" for i
    using that len3 F(4)[of i] A(3)[of i] by simp
  show "name (s' ! i) = name (store ! i)" if "i < length store" for i
  proof -
    from that have i4: "i < length ?store4" using len4 by simp
    from evolves_name[OF E(2) i4] name4[of i] that show ?thesis
      by (simp add: nth_append)
  qed
  show "list_all (\<lambda>v. adjacent v = []) s'" if spent: "list_all (\<lambda>v. adjacent v = []) store"
    unfolding list_all_length
  proof (intro allI impI)
    fix i assume i: "i < length s'"
    consider (old) "i < ?base" | (new) "?base \<le> i" "i < ?base + length ?names"
      | (clone) "?base + length ?names \<le> i"
      by linarith
    then show "adjacent (s' ! i) = []"
    proof cases
      case old
      then have i4: "i < length ?store4" using len4 by simp
      have "adjacent (?store4 ! i) = adjacent (store3 ! i)" using i4 by simp
      also have "\<dots> = adjacent (?store1 ! i)" using F(3)[of i] A(5)[OF old] by simp
      also have "\<dots> = []" using old spent by (simp add: nth_append list_all_length)
      finally show ?thesis by (rule evolves_empty[OF E(2) i4])
    next
      case new
      then have "visited (?store2 ! i) = 0"
        using A(4)[of i] by (simp add: nth_append)
      from F(6)[OF new(2) this] obtain c where "c \<in> set components" "i \<in> set c" by blast
      with E(5) show ?thesis by (auto simp: list_all_iff)
    next
      case clone
      with E(3) i len4 show ?thesis by (simp add: newEmpty_def)
    qed
  qed
  show "namesIn (int (length ps)) s'" if fresh: "store = []"
  proof -
    have "namesIn (int (length ps)) ?store4"
      unfolding namesIn_def list_all_length
    proof (intro allI impI)
      fix i assume i: "i < length ?store4"
      then have i': "i < length ?names" using len4 fresh by simp
      then have "name (?store4 ! i) = ?names ! i"
        using name4[of i] fresh by simp
      moreover have "?names ! i \<in> set ?names" using i' by simp
      ultimately show "0 \<le> name (?store4 ! i) \<and> name (?store4 ! i) < int (length ps)"
        using validateInputs_None_names[OF valid] by simp
    qed
    then show ?thesis by (rule namesIn_evolves[OF _ E(2)])
  qed
qed

section \<open>Discovery: the cycles of the returned forest\<close>

lemma symAdj_Nil: "symAdj []"
  by (simp add: symAdj_def)

lemma recordCycle_closed:
  assumes "recordCycle s c"
  shows "c \<noteq> [] \<and> c ! 0 = c ! (length c - 1) \<and> 4 \<le> length c"
proof -
  from assms obtain walk where w: "c = map (\<lambda>v. name (s ! v)) walk" "4 \<le> length walk"
      "hd walk = last walk"
    unfolding recordCycle_def by blast
  from w(2) have ne: "walk \<noteq> []" by auto
  have "walk ! 0 = walk ! (length walk - 1)"
    using w(3) ne by (simp add: hd_conv_nth last_conv_nth)
  with w(1,2) ne show ?thesis by simp
qed

lemma forest_cycles:
  assumes "list_all (cyclesOK s) trees" "t \<in> set trees" "c \<in> set (allCycles t)" "c \<noteq> []"
  shows "recordCycle s c"
  using assms by (auto simp: cyclesOK_def list_all_iff)

text \<open>
  C2. Whenever \<open>discover\<close> returns a forest, every non-empty cycle list of every tree of
  the forest is closed: its first name equals its last name. The store is the one the
  instance holds when the call starts: \<open>[]\<close> for a fresh instance, and symmetric in its
  adjacency sets in any case, as every call leaves it so.
\<close>

theorem returned_cycles_closed:
  assumes "discover fuel store ps es = Returns (RESULT trees, s')" "symAdj store"
  shows "\<forall>t \<in> set trees. \<forall>c \<in> set (allCycles t). c \<noteq> [] \<longrightarrow> c ! 0 = c ! (length c - 1)"
  using forest_cycles[OF discover_props(2)[OF assms]] recordCycle_closed by blast

theorem returned_cycles_closed_witness:
  "discover 6 [] [(0,0),(2,0),(1,2)] [(0,1),(1,2),(2,0)] = Returns
     (RESULT [CycleTree [0, 1, 2, 0] []],
      [\<lparr>name = 0, position = (0, 0), visited = 0, adjacent = []\<rparr>,
       \<lparr>name = 1, position = (2, 0), visited = 0, adjacent = []\<rparr>,
       \<lparr>name = 2, position = (1, 2), visited = 0, adjacent = []\<rparr>]) \<and>
   [0, 1, 2, 0 :: int] ! 0 = [0, 1, 2, 0] ! (length [0, 1, 2, 0 :: int] - 1)"
proof -
  have e: "discover 6 [] [(0,0),(2,0),(1,2)] [(0,1),(1,2),(2,0)] = Returns
     (RESULT [CycleTree [0, 1, 2, 0] []],
      [\<lparr>name = 0, position = (0, 0), visited = 0, adjacent = []\<rparr>,
       \<lparr>name = 1, position = (2, 0), visited = 0, adjacent = []\<rparr>,
       \<lparr>name = 2, position = (1, 2), visited = 0, adjacent = []\<rparr>])"
    by code_simp
  from returned_cycles_closed[OF e symAdj_Nil]
  have "[0, 1, 2, 0 :: int] ! 0 = [0, 1, 2, 0] ! (length [0, 1, 2, 0 :: int] - 1)" by simp
  with e show ?thesis by blast
qed





section \<open>Nesting builder: the tree returned\<close>

lemma getPolygonArea_returns:
  assumes "validIndices nodes (butlast es)"
  shows "\<exists>a. getPolygonArea nodes es = Returns a"
  by (simp add: getPolygonArea_def getPointPath_valid[OF assms] definedPoints_map_Some Let_def
        del: map_map)

lemma polygonAreas_returns:
  assumes "list_all (\<lambda>es. validIndices nodes (butlast es)) polys"
  shows "\<exists>ps. polygonAreas nodes ix polys = Returns ps \<and> map edges ps = polys"
  using assms
proof (induction polys arbitrary: ix)
  case Nil
  then show ?case by simp
next
  case (Cons es rest)
  from Cons.prems have v: "validIndices nodes (butlast es)" by simp
  from getPolygonArea_returns[OF v] obtain a where a: "getPolygonArea nodes es = Returns a" ..
  from Cons.prems have "list_all (\<lambda>es. validIndices nodes (butlast es)) rest" by simp
  from Cons.IH[OF this, of "ix + 1"] obtain ps where
    ps: "polygonAreas nodes (ix + 1) rest = Returns ps" "map edges ps = rest" by blast
  from a ps show ?case by simp
qed

lemma set_insertByArea: "set (insertByArea p qs) = insert p (set qs)"
  by (induction qs) auto

lemma set_sortByArea: "set (sortByArea ps) = set ps"
  by (induction ps) (simp_all add: sortByArea_def set_insertByArea)

lemma allPointsLieOnBoundary_returns:
  "\<exists>b. allPointsLieOnBoundary (map Some pts) bnd = Returns b"
  by (induction pts) auto

lemma isChildArea_returns:
  assumes "validIndices nodes (butlast (edges c))" "2 \<le> length (edges c)"
    and "validIndices nodes (butlast (edges (polygons ! polygonIndex parent)))"
    and "2 \<le> length (edges (polygons ! polygonIndex parent))"
  shows "\<exists>b. isChildArea c parent polygons nodes = Returns b"
proof -
  let ?C = "map (\<lambda>p. nodes ! nat p) (butlast (edges c))"
  let ?P = "map (\<lambda>p. nodes ! nat p) (butlast (edges (polygons ! polygonIndex parent)))"
  have c: "getPointPath nodes (edges c) = map Some ?C"
    by (rule getPointPath_valid[OF assms(1)])
  have p: "getPointPath nodes (edges (polygons ! polygonIndex parent)) = map Some ?P"
    by (rule getPointPath_valid[OF assms(3)])
  from assms(2) have "length ?C \<noteq> 0" by simp
  then obtain c0 crest where C: "?C = c0 # crest"
    by (cases ?C) auto
  from assms(4) have "length ?P \<noteq> 0" by simp
  then have P: "?P \<noteq> []" by (metis list.size(3))
  obtain b1 where b1: "isInside (Some c0) (map Some ?P) = Returns b1"
    using P by (simp add: isInside_def definedPoints_map_Some del: map_map)
  obtain b2 where b2: "allPointsLieOnBoundary (map Some ?C) (getLinePath ?P) = Returns b2"
    using allPointsLieOnBoundary_returns by blast
  show ?thesis
    unfolding isChildArea_def Let_def c p definedPoints_map_Some option.sel
    using b1 b2 unfolding C by simp
qed

lemma pushChild_index:
  "\<not> is_ROOT parent \<Longrightarrow> polygonIndex (pushChild parent c a) = polygonIndex parent"
  by (cases parent) (simp_all add: pushChild_def)

lemma traverseAreas_returns:
  "\<forall>p \<in> set polys. validIndices nodes (butlast (edges p)) \<and> 2 \<le> length (edges p) \<Longrightarrow>
   is_ROOT parent \<or> polygonIndex parent < length polys \<Longrightarrow>
   \<exists>t vis'. traverseAreas nodes polys parent i vis = Returns (t, vis') \<and>
      is_ROOT t = is_ROOT parent \<and> (\<not> is_ROOT parent \<longrightarrow> polygonIndex t = polygonIndex parent)"
proof (induction nodes polys parent i vis rule: traverseAreas.induct)
  case (1 nodes polygons parent i visited)
  note good = "1.prems"(1) and par = "1.prems"(2)
  show ?case
  proof (cases "i < length polygons")
    case False
    then show ?thesis by (simp add: traverseAreas.simps)
  next
    case lt: True
    show ?thesis
    proof (cases "visited ! i")
      case True
      from "1.IH"(1)[OF _ refl True good par] lt
      obtain t vis' where r: "traverseAreas nodes polygons parent (i + 1) visited = Returns (t, vis')"
        "is_ROOT t = is_ROOT parent" "\<not> is_ROOT parent \<longrightarrow> polygonIndex t = polygonIndex parent"
        by auto
      from lt True r show ?thesis
        by (simp add: traverseAreas.simps[of nodes polygons parent i])
    next
      case nv: False
      let ?p = "polygons ! i"
      let ?test = "if is_ROOT parent then Returns True else isChildArea ?p parent polygons nodes"
      have pg: "validIndices nodes (butlast (edges ?p)) \<and> 2 \<le> length (edges ?p)"
        using good lt by simp
      have "\<exists>b. ?test = Returns b"
      proof (cases "is_ROOT parent")
        case True
        then show ?thesis by auto
      next
        case False
        with par have "polygonIndex parent < length polygons" by simp
        with good have "validIndices nodes (butlast (edges (polygons ! polygonIndex parent))) \<and>
            2 \<le> length (edges (polygons ! polygonIndex parent))" by simp
        with isChildArea_returns[of nodes ?p polygons parent] pg False show ?thesis by simp
      qed
      then obtain b where b: "?test = Returns b" ..
      show ?thesis
      proof (cases b)
        case False
        with b have bf: "?test = Returns False" by simp
        from "1.IH"(4)[OF _ refl nv bf refl good par] lt
        obtain t vis' where r: "traverseAreas nodes polygons parent (i + 1) visited = Returns (t, vis')"
          "is_ROOT t = is_ROOT parent" "\<not> is_ROOT parent \<longrightarrow> polygonIndex t = polygonIndex parent"
          by auto
        from lt nv bf r show ?thesis
          by (simp add: traverseAreas.simps[of nodes polygons parent i] Let_def)
      next
        case True
        let ?new = "CHILD i (area ?p) (area ?p) [] (edges ?p)"
        let ?vis1 = "visited[i := True]"
        let ?inner = "if i + 1 < length polygons
                      then traverseAreas nodes polygons ?new (i + 1) ?vis1
                      else Returns (?new, ?vis1)"
        from b True have bt: "?test = Returns True" by simp
        have newpar: "is_ROOT ?new \<or> polygonIndex ?new < length polygons" using lt by simp
        have "\<exists>new' vis2. ?inner = Returns (new', vis2) \<and> \<not> is_ROOT new' \<and> polygonIndex new' = i"
        proof (cases "i + 1 < length polygons")
          case False
          then show ?thesis by simp
        next
          case t: True
          from "1.IH"(2)[OF _ refl nv bt refl refl refl t good newpar] lt t
          show ?thesis by auto
        qed
        then obtain new' vis2 where inner: "?inner = Returns (new', vis2)"
          and nk: "\<not> is_ROOT new'" "polygonIndex new' = i" by blast
        let ?par' = "pushChild parent new' (area ?p)"
        have par': "is_ROOT ?par' \<or> polygonIndex ?par' < length polygons"
          using par by (cases "is_ROOT parent") (simp_all add: pushChild_kind pushChild_index)
        from "1.IH"(3)[OF _ refl nv bt refl refl refl inner refl good par'] lt
        obtain t vis' where r: "traverseAreas nodes polygons ?par' (i + 1) vis2 = Returns (t, vis')"
          "is_ROOT t = is_ROOT ?par'" "\<not> is_ROOT ?par' \<longrightarrow> polygonIndex t = polygonIndex ?par'"
          by auto
        have "traverseAreas nodes polygons parent i visited = Returns (t, vis')"
          using lt nv bt inner r(1)
          by (simp add: traverseAreas.simps[of nodes polygons parent i] Let_def)
        with r(2,3) show ?thesis
          by (cases "is_ROOT parent") (simp_all add: pushChild_kind pushChild_index)
      qed
    qed
  qed
qed

lemma buildNestingTree_returns:
  assumes "list_all (\<lambda>es. validIndices nodes (butlast es) \<and> 2 \<le> length es) polys"
  shows "\<exists>cs. buildNestingTree nodes polys = Returns (ROOT cs)"
proof -
  from assms have "list_all (\<lambda>es. validIndices nodes (butlast es)) polys"
    by (simp add: list_all_iff)
  from polygonAreas_returns[OF this, of 0] obtain ps where
    ps: "polygonAreas nodes 0 polys = Returns ps" "map edges ps = polys" by blast
  have "\<forall>p \<in> set (sortByArea ps). validIndices nodes (butlast (edges p)) \<and> 2 \<le> length (edges p)"
  proof
    fix p assume "p \<in> set (sortByArea ps)"
    then have "edges p \<in> set (map edges ps)" by (simp add: set_sortByArea)
    with ps(2) assms show "validIndices nodes (butlast (edges p)) \<and> 2 \<le> length (edges p)"
      by (simp add: list_all_iff)
  qed
  from traverseAreas_returns[OF this, of "ROOT []" 0 "replicate (length (sortByArea ps)) False"]
  obtain t vis' where
    t: "traverseAreas nodes (sortByArea ps) (ROOT []) 0 (replicate (length (sortByArea ps)) False)
          = Returns (t, vis')" "is_ROOT t"
    by auto
  from t(2) obtain cs where "t = ROOT cs" by (cases t) auto
  with ps(1) t(1) show ?thesis by (simp add: buildNestingTree_def Let_def)
qed

lemma recordCycle_validIndices:
  assumes "recordCycle s c" "namesIn (int (length nodes)) s"
  shows "validIndices nodes (butlast c) \<and> 2 \<le> length c"
proof -
  from assms(1) obtain walk where w: "c = map (\<lambda>v. name (s ! v)) walk" "4 \<le> length walk"
      "list_all (\<lambda>v. v < length s) walk"
    unfolding recordCycle_def by blast
  have "0 \<le> p \<and> nat p < length nodes" if "p \<in> set c" for p
  proof -
    from that w(1) obtain v where v: "v \<in> set walk" "p = name (s ! v)" by auto
    with w(3) have "v < length s" by (simp add: list_all_iff)
    with assms(2) have "0 \<le> name (s ! v) \<and> name (s ! v) < int (length nodes)"
      by (simp add: namesIn_def list_all_length)
    with v(2) show ?thesis by auto
  qed
  then have "validIndices nodes (butlast c)"
    by (auto simp: validIndices_def list_all_iff dest: in_set_butlastD)
  with w(1,2) show ?thesis by simp
qed

text \<open>
  C9. Whenever \<open>discover\<close> on a fresh instance returns a forest, \<open>getAreaTree\<close> on the
  same input returns, and the node it returns is a \<open>ROOT\<close>, never a \<open>CHILD\<close>: every
  cycle handed to the nesting builder uses indices of nodes only, so no step of the builder
  throws, and the traversal hands back the \<open>ROOT\<close> it was started with.
\<close>

theorem area_tree_is_ROOT:
  assumes "discover fuel [] nodes es = Returns (RESULT trees, s)"
  shows "\<exists>cs. getAreaTree fuel nodes es = Returns (ROOT cs)"
proof -
  note P = discover_props[OF assms symAdj_Nil]
  from P(4) have names: "namesIn (int (length nodes)) s" by simp
  have "list_all (\<lambda>c. validIndices nodes (butlast c) \<and> 2 \<le> length c) (getCyclesFromCycleForest trees)"
    unfolding list_all_iff
  proof
    fix c assume "c \<in> set (getCyclesFromCycleForest trees)"
    then obtain t where "t \<in> set trees" "c \<in> set (allCycles t)" "c \<noteq> []"
      by (auto simp: getCyclesFromCycleForest_def)
    from forest_cycles[OF P(2) this] have "recordCycle s c" .
    from recordCycle_validIndices[OF this names]
    show "validIndices nodes (butlast c) \<and> 2 \<le> length c" .
  qed
  from buildNestingTree_returns[OF this] assms show ?thesis
    by (simp add: getAreaTree_def obind_def)
qed

theorem area_tree_is_ROOT_witness:
  "discover 6 [] [(0,0),(2,0),(1,2)] [(0,1),(1,2),(2,0)] = Returns
     (RESULT [CycleTree [0, 1, 2, 0] []],
      [\<lparr>name = 0, position = (0, 0), visited = 0, adjacent = []\<rparr>,
       \<lparr>name = 1, position = (2, 0), visited = 0, adjacent = []\<rparr>,
       \<lparr>name = 2, position = (1, 2), visited = 0, adjacent = []\<rparr>]) \<and>
   getAreaTree 6 [(0,0),(2,0),(1,2)] [(0,1),(1,2),(2,0)] = Returns (ROOT [CHILD 0 2 2 [] [0, 1, 2, 0]])"
proof -
  have e: "discover 6 [] [(0,0),(2,0),(1,2)] [(0,1),(1,2),(2,0)] = Returns
     (RESULT [CycleTree [0, 1, 2, 0] []],
      [\<lparr>name = 0, position = (0, 0), visited = 0, adjacent = []\<rparr>,
       \<lparr>name = 1, position = (2, 0), visited = 0, adjacent = []\<rparr>,
       \<lparr>name = 2, position = (1, 2), visited = 0, adjacent = []\<rparr>])"
    by code_simp
  have a: "getAreaTree 6 [(0,0),(2,0),(1,2)] [(0,1),(1,2),(2,0)] = Returns (ROOT [CHILD 0 2 2 [] [0, 1, 2, 0]])"
    by code_simp
  from area_tree_is_ROOT[OF e] a e show ?thesis by simp
qed

section \<open>Discovery: a second call on the same instance\<close>

lemma getClockwiseMost_isolated:
  "adjacent (s ! k) = [] \<Longrightarrow> getClockwiseMost s vPrev k = None"
  by (simp add: getClockwiseMost_def)

lemma extractBasis_isolated:
  assumes "adjacent (s ! k) = []"
  shows "extractBasis fuel s [k] = (if fuel = 0 then OutOfFuel else Throws TypeError)"
proof (cases fuel)
  case 0
  then show ?thesis by simp
next
  case (Suc f)
  have rf: "removeFilaments (Suc f) s [k] = Returns (s, [k])"
    using assms by (simp add: removeFilaments_def)
  have lo: "leftOf s k k = k" by (simp add: leftOf_def)
  have cw: "closedWalkLoop (Suc f) s k [k] k (getClockwiseMost s None k) = Throws TypeError"
    by (simp add: getClockwiseMost_isolated[OF assms])
  have "extractCycleFromComponent (extractBasis f) (Suc f) s [k] = Throws TypeError"
    unfolding extractCycleFromComponent_def Let_def using lo cw by (simp add: obind_def)
  then have "extractBasisLoop (extractBasis f) (Suc f) (Suc f) s [k] [] = Throws TypeError"
    using rf by (simp add: obind_def)
  with Suc show ?thesis by (simp add: obind_def)
qed

lemma depthFirstSearch_isolated:
  assumes "depthFirstSearch fuel s k = Returns (s', component)" "adjacent (s ! k) = []"
  shows "component = [k]"
proof -
  from assms(1) obtain f where f: "fuel = Suc f" by (cases fuel) (simp_all add: depthFirstSearch_def)
  with assms have "dfsLoop f (setVisited (setVisited s k 1) k 2) [] [k] = Returns (s', component)"
    by (simp add: depthFirstSearch_def Let_def)
  then show ?thesis by (cases f) simp_all
qed

lemma findComponents_prefix:
  "findComponents fuel s ids components = Returns (s', components') \<Longrightarrow>
     \<exists>more. components' = components @ more"
proof (induction ids arbitrary: s components)
  case Nil
  then show ?case by simp
next
  case (Cons vInitial rest)
  show ?case
  proof (cases "visited (s ! vInitial) = 0")
    case False
    with Cons.prems have "findComponents fuel s rest components = Returns (s', components')" by simp
    from Cons.IH[OF this] show ?thesis .
  next
    case True
    with Cons.prems obtain s1 component where
      "findComponents fuel s1 rest (components @ [component]) = Returns (s', components')"
      by (auto simp: obind_def split: outcome.splits)
    from Cons.IH[OF this] show ?thesis by auto
  qed
qed

lemma findComponents_first_isolated:
  assumes "findComponents fuel s (pre @ k # post) components = Returns (s', components')"
      and "\<forall>j \<in> set pre. visited (s ! j) \<noteq> 0" "visited (s ! k) = 0" "adjacent (s ! k) = []"
  shows "\<exists>more. components' = components @ [k] # more"
  using assms
proof (induction pre)
  case Nil
  then obtain s1 component where
    d: "depthFirstSearch fuel s k = Returns (s1, component)" and
    r: "findComponents fuel s1 post (components @ [component]) = Returns (s', components')"
    by (auto simp: obind_def split: outcome.splits)
  from depthFirstSearch_isolated[OF d Nil.prems(4)] have "component = [k]" .
  with findComponents_prefix[OF r] show ?case by auto
next
  case (Cons j pre)
  from Cons.prems(2) have "visited (s ! j) \<noteq> 0" by simp
  with Cons.prems(1) have "findComponents fuel s (pre @ k # post) components = Returns (s', components')"
    by simp
  from Cons.IH[OF this] Cons.prems(2-4) show ?case by simp
qed

lemma first_unvisited:
  assumes "list_ex (\<lambda>v. visited v = 0) s"
  obtains k where "k < length s" "visited (s ! k) = 0" "\<forall>j < k. visited (s ! j) \<noteq> 0"
proof -
  let ?P = "\<lambda>k. k < length s \<and> visited (s ! k) = 0"
  from assms have ex: "\<exists>k. ?P k" by (auto simp: list_ex_iff in_set_conv_nth)
  let ?k = "LEAST k. ?P k"
  from LeastI_ex[OF ex] have k: "?k < length s" "visited (s ! ?k) = 0" by simp_all
  have "visited (s ! j) \<noteq> 0" if "j < ?k" for j
  proof
    assume "visited (s ! j) = 0"
    with that k(1) have "?P j" by simp
    from not_less_Least[OF that] this show False by blast
  qed
  with k that show thesis by blast
qed

lemma discover_stale:
  assumes spent: "list_all (\<lambda>v. adjacent v = []) store"
      and stale: "list_ex (\<lambda>v. visited v = 0) store"
      and valid: "validateInputs ps es = None"
  shows "discover fuel store ps es \<noteq> Returns r"
proof
  assume ret: "discover fuel store ps es = Returns r"
  let ?names = "uniqueNames [] es"
  let ?base = "length store"
  let ?unique = "map_of (zip ?names [?base..<?base + length ?names])"
  let ?new = "map (\<lambda>n. \<lparr>name = n, position = ps ! nat n, visited = 0, adjacent = []\<rparr>) ?names"
  let ?store1 = "store @ ?new"
  let ?store2 = "addEdges ?unique ?store1 es"
  have len: "length (addEdges u s es) = length s" for u s
    by (induction es arbitrary: s) (auto split: option.splits)
  from ret valid obtain store3 components where
    fc: "findComponents fuel ?store2 [0..<?base + length ?names] [] = Returns (store3, components)" and
    ef: "\<exists>x. extractForest fuel (map (\<lambda>vertex. vertex\<lparr>visited := 0\<rparr>) store3) components [] = Returns x"
    by (auto simp: discover_def Let_def obind_def len split: outcome.splits)
  let ?store4 = "map (\<lambda>vertex. vertex\<lparr>visited := 0\<rparr>) store3"
  have sym0: "symAdj store"
    using spent by (simp add: symAdj_def list_all_length)
  have sym1: "symAdj ?store1"
    by (rule symAdj_append_empties[OF sym0]) (simp add: list_all_iff)
  have rng: "\<And>k v. ?unique k = Some v \<Longrightarrow> ?base \<le> v \<and> v < length ?store1"
    using map_of_zip_range by fastforce
  from addEdges_props[where es = es, OF sym1 rng] have
    A: "symAdj ?store2" "length ?store2 = length ?store1"
       "\<And>i. visited (?store2 ! i) = visited (?store1 ! i)"
       "\<And>i. i < ?base \<Longrightarrow> adjacent (?store2 ! i) = adjacent (?store1 ! i)"
    by simp_all
  have len2: "length ?store2 = ?base + length ?names" using A(2) by simp
  have ids: "inStore ?store2 [0..<?base + length ?names]"
    by (simp add: inStore_def list_all_iff len2)
  from findComponents_props[OF fc A(1) ids] have
    F: "length store3 = length ?store2" "\<And>i. adjacent (store3 ! i) = adjacent (?store2 ! i)"
    by simp_all
  from first_unvisited[OF stale] obtain k where
    k: "k < ?base" "visited (store ! k) = 0" "\<forall>j < k. visited (store ! j) \<noteq> 0" by blast
  have old: "visited (?store2 ! i) = visited (store ! i) \<and> adjacent (?store2 ! i) = []"
    if "i < ?base" for i
    using that A(3)[of i] A(4)[OF that] spent by (simp add: nth_append list_all_length)
  have split: "[0..<?base + length ?names] = [0..<k] @ k # [Suc k..<?base + length ?names]"
  proof -
    let ?n = "?base + length ?names"
    from k(1) have kn: "k < ?n" by simp
    then have "[0..<?n] = [0..<k] @ [k..<?n]"
      using upt_add_eq_append[of 0 k "?n - k"] by simp
    with kn show ?thesis by (simp add: upt_conv_Cons)
  qed
  have pre: "\<forall>j \<in> set [0..<k]. visited (?store2 ! j) \<noteq> 0"
    using k(1,3) old by simp
  from findComponents_first_isolated[OF fc[unfolded split] pre] old[OF k(1)] k(2)
  obtain more where comps: "components = [k] # more" by auto
  have "k < length store3" using F(1) len2 k(1) by simp
  then have "adjacent (?store4 ! k) = []"
    using F(2)[of k] old[OF k(1)] by simp
  from extractBasis_isolated[OF this, of fuel] ef show False
    unfolding comps by (auto simp: obind_def split: if_splits)
qed

text \<open>
  C10, amended. After a call of \<open>discover\<close> on a fresh instance has returned a forest,
  every record left in the vertex store has an empty adjacency set. If one of these records
  still has the marker \<open>visited = 0\<close>, no later call on that store with an input that
  passes validation returns, whatever the fuel: the first such record seeds a component of
  its own, filament pruning leaves it alone, the walker finds no vertex next to it and the
  loop of the closed walk throws.
\<close>

theorem instance_single_use:
  assumes "discover fuel [] ps es = Returns (RESULT trees, s1)"
  shows "list_all (\<lambda>v. adjacent v = []) s1 \<and>
         (\<forall>fuel' ps' es' r. validateInputs ps' es' = None \<and> list_ex (\<lambda>v. visited v = 0) s1
             \<longrightarrow> discover fuel' s1 ps' es' \<noteq> Returns r)"
proof -
  have spent: "list_all (\<lambda>v. adjacent v = []) s1"
    by (rule discover_props(3)[OF assms symAdj_Nil]) simp
  with discover_stale show ?thesis by blast
qed

theorem instance_single_use_witness:
  "discover 6 [] [(0,0),(2,0),(1,2)] [(0,1),(1,2),(2,0)] = Returns
     (RESULT [CycleTree [0, 1, 2, 0] []],
      [\<lparr>name = 0, position = (0, 0), visited = 0, adjacent = []\<rparr>,
       \<lparr>name = 1, position = (2, 0), visited = 0, adjacent = []\<rparr>,
       \<lparr>name = 2, position = (1, 2), visited = 0, adjacent = []\<rparr>]) \<and>
   validateInputs [(0,0),(2,0),(1,2)] [(0,1),(1,2),(2,0)] = None \<and>
   list_ex (\<lambda>v. visited v = 0)
      [\<lparr>name = 0, position = (0, 0), visited = 0, adjacent = []\<rparr>,
       \<lparr>name = 1, position = (2, 0), visited = 0, adjacent = []\<rparr>,
       \<lparr>name = 2, position = (1, 2), visited = 0, adjacent = []\<rparr>] \<and>
   discover 6
      [\<lparr>name = 0, position = (0, 0), visited = 0, adjacent = []\<rparr>,
       \<lparr>name = 1, position = (2, 0), visited = 0, adjacent = []\<rparr>,
       \<lparr>name = 2, position = (1, 2), visited = 0, adjacent = []\<rparr>]
      [(0,0),(2,0),(1,2)] [(0,1),(1,2),(2,0)] = Throws TypeError"
proof -
  let ?S = "[\<lparr>name = 0, position = (0, 0), visited = 0, adjacent = []\<rparr>,
       \<lparr>name = 1, position = (2, 0), visited = 0, adjacent = []\<rparr>,
       \<lparr>name = 2, position = (1, 2), visited = 0, adjacent = []\<rparr>]"
  have e: "discover 6 [] [(0,0),(2,0),(1,2)] [(0,1),(1,2),(2,0)] = Returns
     (RESULT [CycleTree [0, 1, 2, 0] []], ?S)"
    by code_simp
  have v: "validateInputs [(0,0),(2,0),(1,2)] [(0,1),(1,2),(2,0)] = None"
    by code_simp
  have st: "list_ex (\<lambda>v. visited v = 0) ?S" by simp
  have t: "discover 6 ?S [(0,0),(2,0),(1,2)] [(0,1),(1,2),(2,0)] = Throws TypeError"
    by code_simp
  from instance_single_use[OF e] v st
  have "\<forall>r. discover 6 ?S [(0,0),(2,0),(1,2)] [(0,1),(1,2),(2,0)] \<noteq> Returns r" by blast
  with e v st t show ?thesis by blast
qed

text \<open>
  C10 as stated fails: the markers are reset before the extraction, and the extraction
  marks again the records it reaches from a clone. For an accepted input whose edges
  \<open>0-3\<close> and \<open>1-2\<close> cross, the first call leaves every record with the marker \<open>2\<close>; no
  stale record seeds a component, and a second call on that store returns a forest.
\<close>

theorem second_call_returns_counterexample:
  "validateInputs [(0,2),(2,0),(2,4),(3,2)] [(0,1),(0,2),(0,3),(1,2),(1,3)] = None \<and>
   discover 12 [] [(0,2),(2,0),(2,4),(3,2)] [(0,1),(0,2),(0,3),(1,2),(1,3)] = Returns
     (RESULT [CycleTree [0, 1, 2, 0] [CycleTree [0, 1, 2, 0] []]],
      [\<lparr>name = 0, position = (0, 2), visited = 2, adjacent = []\<rparr>,
       \<lparr>name = 1, position = (2, 0), visited = 2, adjacent = []\<rparr>,
       \<lparr>name = 2, position = (2, 4), visited = 2, adjacent = []\<rparr>,
       \<lparr>name = 3, position = (3, 2), visited = 2, adjacent = []\<rparr>,
       \<lparr>name = 0, position = (0, 2), visited = 2, adjacent = []\<rparr>]) \<and>
   validateInputs [(0,0),(2,0),(1,2)] [(0,1),(1,2),(2,0)] = None \<and>
   discover 12
      [\<lparr>name = 0, position = (0, 2), visited = 2, adjacent = []\<rparr>,
       \<lparr>name = 1, position = (2, 0), visited = 2, adjacent = []\<rparr>,
       \<lparr>name = 2, position = (2, 4), visited = 2, adjacent = []\<rparr>,
       \<lparr>name = 3, position = (3, 2), visited = 2, adjacent = []\<rparr>,
       \<lparr>name = 0, position = (0, 2), visited = 2, adjacent = []\<rparr>]
      [(0,0),(2,0),(1,2)] [(0,1),(1,2),(2,0)] = Returns
     (RESULT [CycleTree [0, 1, 2, 0] []],
      [\<lparr>name = 0, position = (0, 2), visited = 0, adjacent = []\<rparr>,
       \<lparr>name = 1, position = (2, 0), visited = 0, adjacent = []\<rparr>,
       \<lparr>name = 2, position = (2, 4), visited = 0, adjacent = []\<rparr>,
       \<lparr>name = 3, position = (3, 2), visited = 0, adjacent = []\<rparr>,
       \<lparr>name = 0, position = (0, 2), visited = 0, adjacent = []\<rparr>,
       \<lparr>name = 0, position = (0, 0), visited = 0, adjacent = []\<rparr>,
       \<lparr>name = 1, position = (2, 0), visited = 0, adjacent = []\<rparr>,
       \<lparr>name = 2, position = (1, 2), visited = 0, adjacent = []\<rparr>])"
  by code_simp
end
